theory Spec2Isabelle
  imports Main "HOL-Library.Word" "HOL-Library.Char_ord" "HOL-Library.List_Lexorder"
begin

unbundle bit_operations_syntax

section \<open>The object model of the Elasticsearch exporter\<close>

text \<open>
  A shallow embedding of \<^verbatim>\<open>exporter/elasticsearchexporter/internal/objmodel/objmodel.go\<close>.
  Go strings are byte sequences and are modelled as \<^typ>\<open>string\<close> (lists of 8-bit
  characters); Go's \<^verbatim>\<open><\<close> on strings is the lexicographic order on bytes, which is the
  order of \<^verbatim>\<open>List_Lexorder\<close> over \<^verbatim>\<open>Char_ord\<close>.
\<close>

subsection \<open>Data model\<close>

text \<open>The constants of type \<^verbatim>\<open>Kind\<close>, in the order of the \<^verbatim>\<open>iota\<close> block.\<close>

datatype Kind = KindNil | KindBool | KindInt | KindDouble | KindString | KindArr
  | KindObject | KindTimestamp | KindIgnore

text \<open>
  A \<^verbatim>\<open>float64\<close> is its IEEE 754 binary64 bit pattern: bit 63 the sign, bits 62..52 the
  exponent, bits 51..0 the fraction.
\<close>

type_synonym float64 = "64 word"

text \<open>
  A \<^verbatim>\<open>time.Time\<close> is modelled by the civil date and clock reading that the instant has
  in UTC, which is what \<^verbatim>\<open>t.UTC()\<close> hands to \<^verbatim>\<open>Format\<close>. Go's \<^verbatim>\<open>time.Time\<close> covers
  years far outside 0..9999, so the year is an unbounded integer.
\<close>

record Time =
  Year :: int
  Month :: nat
  Day :: nat
  Hour :: nat
  Minute :: nat
  Second :: nat
  Nanosecond :: nat

text \<open>
  The struct \<^verbatim>\<open>Value\<close> with all of its fields; a \<^verbatim>\<open>Document\<close> is the slice of its
  fields and a \<^verbatim>\<open>field\<close> the pair of its key and its value. Values are trees: the
  slices of a document are taken to be its own, as they are for a document built by the
  importer, so that sorting or deduplicating one value in place changes no other.
\<close>

datatype Value = Value (kind: Kind) (primitive: "64 word") (dbl: float64) (str: string)
  (arr: "Value list") (doc: "(string \<times> Value) list") (ts: Time)

type_synonym field = "string \<times> Value"

type_synonym Document = "field list"

abbreviation key :: "field \<Rightarrow> string" where
  "key \<equiv> fst"

abbreviation val :: "field \<Rightarrow> Value" where
  "val \<equiv> snd"

text \<open>The zero \<^verbatim>\<open>time.Time\<close>: January 1 of year 1, 00:00:00 UTC.\<close>

definition zeroTime :: Time where
  "zeroTime = \<lparr>Year = 1, Month = 1, Day = 1, Hour = 0, Minute = 0, Second = 0, Nanosecond = 0\<rparr>"

text \<open>A composite literal \<^verbatim>\<open>Value{kind: k}\<close>: every other field has its zero value.\<close>

definition zeroValue :: "Kind \<Rightarrow> Value" where
  "zeroValue k = Value k 0 0 [] [] [] zeroTime"

definition nilValue :: Value where
  "nilValue = zeroValue KindNil"

definition ignoreValue :: Value where
  "ignoreValue = zeroValue KindIgnore"

subsection \<open>Constructors\<close>

definition StringValue :: "string \<Rightarrow> Value" where
  "StringValue s = Value KindString 0 0 s [] [] zeroTime"

text \<open>
  \<^verbatim>\<open>IntValue\<close> takes an \<^verbatim>\<open>int64\<close>, given here by its mathematical value, and stores
  \<^verbatim>\<open>uint64(i)\<close>: the same 64 bits, that is the value modulo \<open>2 ^ 64\<close>.
\<close>

definition IntValue :: "int \<Rightarrow> Value" where
  "IntValue i = Value KindInt (word_of_int i) 0 [] [] [] zeroTime"

definition DoubleValue :: "float64 \<Rightarrow> Value" where
  "DoubleValue d = Value KindDouble 0 d [] [] [] zeroTime"

definition BoolValue :: "bool \<Rightarrow> Value" where
  "BoolValue b = Value KindBool (if b then 1 else 0) 0 [] [] [] zeroTime"

definition ArrValue :: "Value list \<Rightarrow> Value" where
  "ArrValue values = Value KindArr 0 0 [] values [] zeroTime"

definition TimestampValue :: "Time \<Rightarrow> Value" where
  "TimestampValue t = Value KindTimestamp 0 0 [] [] [] t"

text \<open>The literal \<^verbatim>\<open>Value{kind: KindObject, doc: sub}\<close> of \<^verbatim>\<open>ValueFromAttribute\<close>.\<close>

definition ObjectValue :: "Document \<Rightarrow> Value" where
  "ObjectValue sub = Value KindObject 0 0 [] [] sub zeroTime"

subsection \<open>Importing attributes\<close>

text \<open>
  \<^verbatim>\<open>pdata.AttributeValue\<close> with its seven types; a \<^verbatim>\<open>pdata.AttributeMap\<close> is the list of
  its key/value pairs, which \<^verbatim>\<open>ForEach\<close> visits in order.
\<close>

datatype AttributeValue =
    AttributeValueNULL
  | AttributeValueSTRING string
  | AttributeValueINT int
  | AttributeValueDOUBLE float64
  | AttributeValueBOOL bool
  | AttributeValueMAP "(string \<times> AttributeValue) list"
  | AttributeValueARRAY "AttributeValue list"

type_synonym AttributeMap = "(string \<times> AttributeValue) list"

definition flattenKey :: "string \<Rightarrow> string \<Rightarrow> string" where
  "flattenKey path k = (if path = [] then k else path @ ''.'' @ k)"

text \<open>
  \<^verbatim>\<open>appendAttributeFields\<close> runs \<^verbatim>\<open>appendAttributeValue\<close> over the entries of the map;
  \<^verbatim>\<open>DocumentFromAttributesWithPath\<close> returns the empty document for the empty map and
  otherwise appends to an empty slice, which is the same list. \<^verbatim>\<open>ValueFromAttribute\<close>
  reaches \<^verbatim>\<open>DocumentFromAttributes\<close>, that is the empty path, for a map.
\<close>

fun ValueFromAttribute :: "AttributeValue \<Rightarrow> Value"
  and arrFromAttributes :: "AttributeValue list \<Rightarrow> Value list"
  and appendAttributeFields :: "Document \<Rightarrow> string \<Rightarrow> AttributeMap \<Rightarrow> Document"
  and appendAttributeValue :: "Document \<Rightarrow> string \<Rightarrow> string \<Rightarrow> AttributeValue \<Rightarrow> Document"
where
  "ValueFromAttribute (AttributeValueINT i) = IntValue i"
| "ValueFromAttribute (AttributeValueDOUBLE d) = DoubleValue d"
| "ValueFromAttribute (AttributeValueSTRING s) = StringValue s"
| "ValueFromAttribute (AttributeValueBOOL b) = BoolValue b"
| "ValueFromAttribute (AttributeValueARRAY aa) = ArrValue (arrFromAttributes aa)"
| "ValueFromAttribute (AttributeValueMAP am) = ObjectValue (appendAttributeFields [] [] am)"
| "ValueFromAttribute AttributeValueNULL = nilValue"
| "arrFromAttributes [] = []"
| "arrFromAttributes (a # aa) = ValueFromAttribute a # arrFromAttributes aa"
| "appendAttributeFields fs path [] = fs"
| "appendAttributeFields fs path (kv # am) =
     appendAttributeFields (appendAttributeValue fs path (fst kv) (snd kv)) path am"
| "appendAttributeValue fs path k AttributeValueNULL = fs"
| "appendAttributeValue fs path k (AttributeValueMAP am) =
     appendAttributeFields fs (flattenKey path k) am"
| "appendAttributeValue fs path k attr =
     fs @ [(flattenKey path k, ValueFromAttribute attr)]"

definition DocumentFromAttributesWithPath :: "string \<Rightarrow> AttributeMap \<Rightarrow> Document" where
  "DocumentFromAttributesWithPath path am =
     (if length am = 0 then [] else appendAttributeFields [] path am)"

definition DocumentFromAttributes :: "AttributeMap \<Rightarrow> Document" where
  "DocumentFromAttributes am = DocumentFromAttributesWithPath [] am"

subsection \<open>Sort and Dedup\<close>

text \<open>
  \<^verbatim>\<open>Document.Sort\<close> sorts the fields with \<^verbatim>\<open>sort.SliceStable\<close> by \<^verbatim>\<open>key\<close> and then sorts
  every value; \<^verbatim>\<open>Value.Sort\<close> descends into an Object and into the elements of an Array.
  The stable sort is \<^const>\<open>sort_key\<close>: its result is ordered by key and keeps the fields
  of one key in their order (\<open>Sort_fields_stable\<close> below), which determines it.
\<close>

fun Document_Sort :: "Document \<Rightarrow> Document"
  and Value_Sort :: "Value \<Rightarrow> Value"
where
  "Document_Sort fs = map (\<lambda>f. (key f, Value_Sort (val f))) (sort_key key fs)"
| "Value_Sort (Value k p d s a dc t) =
     (if k = KindObject then Value k p d s a (Document_Sort dc) t
      else if k = KindArr then Value k p d s (map Value_Sort a) dc t
      else Value k p d s a dc t)"

declare Document_Sort.simps [simp del]

text \<open>\<^verbatim>\<open>strings.HasPrefix\<close>: \<^verbatim>\<open>len(s) >= len(prefix) && s[0:len(prefix)] == prefix\<close>.\<close>

definition HasPrefix :: "string \<Rightarrow> string \<Rightarrow> bool" where
  "HasPrefix s pre = (length s \<ge> length pre \<and> take (length pre) s = pre)"

text \<open>
  The first loop of \<^verbatim>\<open>Document.Dedup\<close>, from index \<open>i\<close> on. The bound \<^verbatim>\<open>len(doc.fields)-1\<close>
  is computed on Go's signed \<^verbatim>\<open>int\<close>, so it is \<open>-1\<close> for the empty document.
\<close>

function Dedup_rename :: "nat \<Rightarrow> Document \<Rightarrow> Document" where
  "Dedup_rename i fs =
     (if int i < int (length fs) - 1
      then Dedup_rename (i + 1)
             (if length (key (fs ! i)) < length (key (fs ! (i + 1))) \<and>
                 HasPrefix (key (fs ! (i + 1))) (key (fs ! i))
              then fs[i := (key (fs ! i) @ ''.value'', val (fs ! i))]
              else fs)
      else fs)"
  by pat_completeness auto
termination
  by (relation "measure (\<lambda>(i, fs). length fs - i)") auto

text \<open>The second loop of \<^verbatim>\<open>Document.Dedup\<close>, from index \<open>i\<close> on.\<close>

function Dedup_mark :: "nat \<Rightarrow> Document \<Rightarrow> Document" where
  "Dedup_mark i fs =
     (if int i < int (length fs) - 1
      then Dedup_mark (i + 1)
             (if key (fs ! i) = key (fs ! (i + 1))
              then fs[i := (key (fs ! i), ignoreValue)]
              else fs)
      else fs)"
  by pat_completeness auto
termination
  by (relation "measure (\<lambda>(i, fs). length fs - i)") auto

declare Dedup_rename.simps [simp del] Dedup_mark.simps [simp del]

text \<open>
  Both loops read the fields \<open>i\<close> and \<open>i + 1\<close> and write the field \<open>i\<close> only, so the field
  \<open>i + 1\<close> is still the original one when it is read. Each loop is therefore a pass over
  the adjacent pairs of the list; \<open>Dedup_rename_eq\<close> and \<open>Dedup_mark_eq\<close> prove it.
\<close>

fun renamePairs :: "Document \<Rightarrow> Document" where
  "renamePairs (f # g # fs) =
     (if length (key f) < length (key g) \<and> HasPrefix (key g) (key f)
      then (key f @ ''.value'', val f) else f) # renamePairs (g # fs)"
| "renamePairs fs = fs"

fun markPairs :: "Document \<Rightarrow> Document" where
  "markPairs (f # g # fs) =
     (if key f = key g then (key f, ignoreValue) else f) # markPairs (g # fs)"
| "markPairs fs = fs"

lemma length_renamePairs [simp]: "length (renamePairs fs) = length fs"
  by (induction fs rule: renamePairs.induct) auto

lemma length_markPairs [simp]: "length (markPairs fs) = length fs"
  by (induction fs rule: markPairs.induct) auto

lemma Dedup_rename_eq: "i \<le> length fs \<Longrightarrow> Dedup_rename i fs = take i fs @ renamePairs (drop i fs)"
proof (induction i fs rule: Dedup_rename.induct)
  case (1 i fs)
  show ?case
  proof (cases "int i < int (length fs) - 1")
    case False
    then have "length (drop i fs) \<le> 1" by simp
    then have "renamePairs (drop i fs) = drop i fs"
      by (cases "drop i fs" rule: renamePairs.cases) auto
    with False show ?thesis
      by (subst Dedup_rename.simps) simp
  next
    case True
    then have lt: "Suc i < length fs" by simp
    define f where "f = fs ! i"
    define g where "g = fs ! Suc i"
    have dr: "drop i fs = f # g # drop (Suc (Suc i)) fs"
      using lt by (simp add: f_def g_def Cons_nth_drop_Suc)
    define fs' where "fs' = (if length (key f) < length (key g) \<and> HasPrefix (key g) (key f)
              then fs[i := (key f @ ''.value'', val f)] else fs)"
    have len: "length fs' = length fs" by (simp add: fs'_def)
    have IH: "Dedup_rename (i + 1) fs' = take (i + 1) fs' @ renamePairs (drop (i + 1) fs')"
      using "1.IH"[OF True] lt len unfolding fs'_def f_def g_def by simp
    have d': "drop (Suc i) fs' = g # drop (Suc (Suc i)) fs"
    proof -
      have "drop (Suc i) fs' = fs' ! Suc i # drop (Suc (Suc i)) fs'"
        using lt len by (simp add: Cons_nth_drop_Suc)
      moreover have "fs' ! Suc i = g" by (simp add: fs'_def g_def)
      moreover have "drop (Suc (Suc i)) fs' = drop (Suc (Suc i)) fs"
        by (simp add: fs'_def drop_update_cancel)
      ultimately show ?thesis by simp
    qed
    have t': "take (Suc i) fs' = take i fs @ [if length (key f) < length (key g) \<and> HasPrefix (key g) (key f)
              then (key f @ ''.value'', val f) else f]"
      using lt by (auto simp: fs'_def take_Suc_conv_app_nth f_def)
    have "Dedup_rename i fs = Dedup_rename (i + 1) fs'"
      using True by (subst Dedup_rename.simps) (simp add: fs'_def f_def g_def)
    then show ?thesis
      using IH d' t' dr by simp
  qed
qed


lemma Dedup_mark_eq: "i \<le> length fs \<Longrightarrow> Dedup_mark i fs = take i fs @ markPairs (drop i fs)"
proof (induction i fs rule: Dedup_mark.induct)
  case (1 i fs)
  show ?case
  proof (cases "int i < int (length fs) - 1")
    case False
    then have "length (drop i fs) \<le> 1" by simp
    then have "markPairs (drop i fs) = drop i fs"
      by (cases "drop i fs" rule: markPairs.cases) auto
    with False show ?thesis
      by (subst Dedup_mark.simps) simp
  next
    case True
    then have lt: "Suc i < length fs" by simp
    define f where "f = fs ! i"
    define g where "g = fs ! Suc i"
    have dr: "drop i fs = f # g # drop (Suc (Suc i)) fs"
      using lt by (simp add: f_def g_def Cons_nth_drop_Suc)
    define fs' where "fs' = (if key f = key g then fs[i := (key f, ignoreValue)] else fs)"
    have len: "length fs' = length fs" by (simp add: fs'_def)
    have IH: "Dedup_mark (i + 1) fs' = take (i + 1) fs' @ markPairs (drop (i + 1) fs')"
      using "1.IH"[OF True] lt len unfolding fs'_def f_def g_def by simp
    have d': "drop (Suc i) fs' = g # drop (Suc (Suc i)) fs"
    proof -
      have "drop (Suc i) fs' = fs' ! Suc i # drop (Suc (Suc i)) fs'"
        using lt len by (simp add: Cons_nth_drop_Suc)
      moreover have "fs' ! Suc i = g" by (simp add: fs'_def g_def)
      moreover have "drop (Suc (Suc i)) fs' = drop (Suc (Suc i)) fs"
        by (simp add: fs'_def drop_update_cancel)
      ultimately show ?thesis by simp
    qed
    have t': "take (Suc i) fs' = take i fs @ [if key f = key g then (key f, ignoreValue) else f]"
      using lt by (auto simp: fs'_def take_Suc_conv_app_nth f_def)
    have "Dedup_mark i fs = Dedup_mark (i + 1) fs'"
      using True by (subst Dedup_mark.simps) (simp add: fs'_def f_def g_def)
    then show ?thesis
      using IH d' t' dr by simp
  qed
qed

text \<open>What the first pass does to each field, in terms of the fields it started from.\<close>

lemma renamePairs_nth:
  "i < length fs \<Longrightarrow> renamePairs fs ! i =
     (if Suc i < length fs \<and> length (key (fs ! i)) < length (key (fs ! Suc i)) \<and>
         HasPrefix (key (fs ! Suc i)) (key (fs ! i))
      then (key (fs ! i) @ ''.value'', val (fs ! i))
      else fs ! i)"
proof (induction fs arbitrary: i rule: renamePairs.induct)
  case (1 f g fs)
  then show ?case by (cases i) auto
qed auto

lemma Dedup_rename_0: "Dedup_rename 0 fs = renamePairs fs"
  using Dedup_rename_eq [of 0 fs] by simp

lemma Dedup_mark_0: "Dedup_mark 0 fs = markPairs fs"
  using Dedup_mark_eq [of 0 fs] by simp

lemma val_renamePairs: "map val (renamePairs fs) = map val fs"
  by (induction fs rule: renamePairs.induct) auto

lemma val_markPairs: "f \<in> set (markPairs fs) \<Longrightarrow> val f \<in> val ` set fs \<or> val f = ignoreValue"
  by (induction fs rule: markPairs.induct) (auto split: if_splits)

lemma val_passes:
  assumes "f \<in> set (Dedup_mark 0 (Dedup_rename 0 fs))"
  shows "val f \<in> val ` set fs \<or> val f = ignoreValue"
proof -
  have "val f \<in> val ` set (renamePairs fs) \<or> val f = ignoreValue"
    using assms val_markPairs by (simp add: Dedup_rename_0 Dedup_mark_0)
  moreover have "val ` set (renamePairs fs) = val ` set fs"
    using val_renamePairs [of fs] by (metis set_map)
  ultimately show ?thesis by simp
qed

text \<open>
  The third loop calls \<^verbatim>\<open>Value.Dedup\<close> on the value of every field as the two passes left
  it: a value of the document or \<^verbatim>\<open>ignoreValue\<close>. That is what the recursion below
  descends on.
\<close>

lemma size_val_less: "f \<in> set fs \<Longrightarrow> size (val f) < size_list (size_prod (\<lambda>x. 0) size) fs"
  by (induction fs) auto

lemma passes_nonempty: "f \<in> set (Dedup_mark 0 (Dedup_rename 0 fs)) \<Longrightarrow> fs \<noteq> []"
  by (auto simp: Dedup_rename_0 Dedup_mark_0)

lemma size_ignoreValue: "size ignoreValue = 1"
  by (simp add: ignoreValue_def zeroValue_def)

text \<open>
  \<^verbatim>\<open>Document.Dedup\<close>: the rename pass, the marking pass, then \<^verbatim>\<open>Value.Dedup\<close> on every
  value; \<^verbatim>\<open>Value.Dedup\<close> descends into an Object and into the elements of an Array.
\<close>

function Document_Dedup :: "Document \<Rightarrow> Document"
  and Value_Dedup :: "Value \<Rightarrow> Value"
where
  "Document_Dedup fs =
     map (\<lambda>f. (key f, Value_Dedup (val f))) (Dedup_mark 0 (Dedup_rename 0 fs))"
| "Value_Dedup (Value k p d s a dc t) =
     (if k = KindObject then Value k p d s a (Document_Dedup dc) t
      else if k = KindArr then Value k p d s (map Value_Dedup a) dc t
      else Value k p d s a dc t)"
  by pat_completeness auto
termination
proof (relation "measure (\<lambda>x. case x of
    Inl fs \<Rightarrow> 2 * size_list (size_prod (\<lambda>x. 0) size) fs + 1 | Inr v \<Rightarrow> 2 * size v)")
  show "wf (measure (\<lambda>x. case x of
    Inl fs \<Rightarrow> 2 * size_list (size_prod (\<lambda>x. 0) size) fs + 1 | Inr v \<Rightarrow> 2 * size v))"
    by simp
next
  fix fs :: Document and f
  assume f: "f \<in> set (Dedup_mark 0 (Dedup_rename 0 fs))"
  have ne: "fs \<noteq> []" using f by (rule passes_nonempty)
  then have pos: "0 < size_list (size_prod (\<lambda>x. 0) size) fs" by (cases fs) auto
  have "size (val f) < size_list (size_prod (\<lambda>x. 0) size) fs \<or> size (val f) = 1"
    using val_passes [OF f] size_val_less size_ignoreValue by auto
  with pos show "(Inr (val f), Inl fs) \<in> measure (\<lambda>x. case x of
    Inl fs \<Rightarrow> 2 * size_list (size_prod (\<lambda>x. 0) size) fs + 1 | Inr v \<Rightarrow> 2 * size v)"
    by auto
next
  fix k :: Kind and p d s a dc t
  show "(Inl dc, Inr (Value k p d s a dc t)) \<in> measure (\<lambda>x. case x of
    Inl fs \<Rightarrow> 2 * size_list (size_prod (\<lambda>x. 0) size) fs + 1 | Inr v \<Rightarrow> 2 * size v)"
    by simp
next
  fix k :: Kind and p d s and a :: "Value list" and dc t and x :: Value
  assume "x \<in> set a"
  then have "size x < Suc (size_list size a)" by (induction a) auto
  then show "(Inr x, Inr (Value k p d s a dc t)) \<in> measure (\<lambda>x. case x of
    Inl fs \<Rightarrow> 2 * size_list (size_prod (\<lambda>x. 0) size) fs + 1 | Inr v \<Rightarrow> 2 * size v)"
    by simp
qed

declare Document_Dedup.simps [simp del]

subsection \<open>Serialization\<close>

text \<open>
  The serializer drives a \<^verbatim>\<open>json.Visitor\<close> of the library go-structform. The visitor is
  not part of this package, so it is a parameter: an \<open>event\<close> is one call of a visitor
  method (\<^verbatim>\<open>OnObjectStart\<close> and \<^verbatim>\<open>OnArrayStart\<close> are always called with \<open>-1\<close> and
  \<^verbatim>\<open>structform.AnyType\<close>), and a \<open>sink\<close> gives the error, if any, that the visitor
  returns for a call, from the calls made before it. The state threaded through the
  serializer is the list of the calls made so far; \<open>call\<close> makes one more.
\<close>

datatype event = OnObjectStart | OnObjectFinished | OnArrayStart | OnArrayFinished
  | OnKey string | OnNil | OnBool bool | OnInt64 int | OnFloat64 float64 | OnString string

text \<open>
  The errors: \<^verbatim>\<open>errors.New("TODO")\<close> of \<^verbatim>\<open>iterJSONDedot\<close>, and what a visitor call returns.
\<close>

datatype error = ErrTODO | ErrSink string

type_synonym sink = "event list \<Rightarrow> event \<Rightarrow> error option"

definition call :: "sink \<Rightarrow> event \<Rightarrow> event list \<Rightarrow> error option \<times> event list" where
  "call w ev h = (w h ev, h @ [ev])"

text \<open>
  \<^verbatim>\<open>math.IsNaN\<close> (\<^verbatim>\<open>f != f\<close>) holds of the bit patterns with all exponent bits set and a
  fraction that is not zero; \<^verbatim>\<open>math.IsInf(f, sign)\<close> holds of positive infinity when
  \<open>sign \<ge> 0\<close> and of negative infinity when \<open>sign \<le> 0\<close>.
\<close>

definition IsNaN :: "float64 \<Rightarrow> bool" where
  "IsNaN f = (drop_bit 52 f AND 0x7FF = 0x7FF \<and> f AND 0xFFFFFFFFFFFFF \<noteq> 0)"

definition IsInf :: "float64 \<Rightarrow> int \<Rightarrow> bool" where
  "IsInf f sign = (sign \<ge> 0 \<and> f = 0x7FF0000000000000 \<or> sign \<le> 0 \<and> f = 0xFFF0000000000000)"

definition tsLayout :: string where
  "tsLayout = ''2006-01-02T15:04:05.000000000Z''"

text \<open>
  \<^verbatim>\<open>Time.Format\<close> of Go's standard library, for the layout elements that occur in
  \<^verbatim>\<open>tsLayout\<close>. \<open>appendInt\<close> writes a sign for a negative number and the decimal digits
  padded with zeros to at least \<open>width\<close>; \<open>formatNano\<close> writes the separator and the nine
  digits of the nanoseconds. \<open>Format\<close> reads the layout from the left: \<^verbatim>\<open>2006\<close> is the
  year padded to four digits, \<^verbatim>\<open>01\<close>, \<^verbatim>\<open>02\<close>, \<^verbatim>\<open>15\<close>, \<^verbatim>\<open>04\<close> and \<^verbatim>\<open>05\<close> are month, day,
  hour, minute and second padded to two, a point followed by nine zeros and no further
  digit is the fraction, and every other character stands for itself. The other elements
  of Go's layouts (names, \<^verbatim>\<open>1\<close>, \<^verbatim>\<open>2\<close>, \<^verbatim>\<open>3\<close>, \<^verbatim>\<open>06\<close>, zones, ...) do not occur in \<^verbatim>\<open>tsLayout\<close>
  and are not modelled.
\<close>

definition digit :: "nat \<Rightarrow> char" where
  "digit n = char_of (48 + n)"

function decimal :: "nat \<Rightarrow> string" where
  "decimal u = (if u \<ge> 10 then decimal (u div 10) @ [digit (u mod 10)] else [digit u])"
  by pat_completeness auto
termination
  by (relation "measure id") auto

declare decimal.simps [simp del]

definition appendInt :: "int \<Rightarrow> nat \<Rightarrow> string" where
  "appendInt x width =
     (if x < 0 then ''-'' else []) @
     replicate (width - length (decimal (nat \<bar>x\<bar>))) (CHR ''0'') @ decimal (nat \<bar>x\<bar>)"

definition formatNano :: "nat \<Rightarrow> string" where
  "formatNano nanosec = ''.'' @ map (\<lambda>i. digit (nanosec div 10 ^ (8 - i) mod 10)) [0..<9]"

definition isDigit :: "string \<Rightarrow> nat \<Rightarrow> bool" where
  "isDigit s i = (i < length s \<and> CHR ''0'' \<le> s ! i \<and> s ! i \<le> CHR ''9'')"

function Format :: "Time \<Rightarrow> string \<Rightarrow> string" where
  "Format t layout =
     (if layout = [] then []
      else if HasPrefix layout ''2006'' then appendInt (Year t) 4 @ Format t (drop 4 layout)
      else if HasPrefix layout ''01'' then appendInt (int (Month t)) 2 @ Format t (drop 2 layout)
      else if HasPrefix layout ''02'' then appendInt (int (Day t)) 2 @ Format t (drop 2 layout)
      else if HasPrefix layout ''15'' then appendInt (int (Hour t)) 2 @ Format t (drop 2 layout)
      else if HasPrefix layout ''04'' then appendInt (int (Minute t)) 2 @ Format t (drop 2 layout)
      else if HasPrefix layout ''05'' then appendInt (int (Second t)) 2 @ Format t (drop 2 layout)
      else if HasPrefix layout ''.000000000'' \<and> \<not> isDigit layout 10
        then formatNano (Nanosecond t) @ Format t (drop 10 layout)
      else hd layout # Format t (tl layout))"
  by pat_completeness auto
termination
  by (relation "measure (\<lambda>(t, layout). length layout)") (auto simp: HasPrefix_def)

declare Format.simps [simp del]

text \<open>
  \<^verbatim>\<open>Value.iterJSON\<close>, its loop over the elements of an array (\<open>iterArr\<close>),
  \<^verbatim>\<open>Document.iterJSON\<close>, \<^verbatim>\<open>Document.iterJSONFlat\<close> and its loop over the fields
  (\<open>iterFields\<close>). Each takes the calls made so far and returns the error, if any, with
  the calls made. The results of \<^verbatim>\<open>OnObjectStart\<close>, \<^verbatim>\<open>OnKey\<close>, \<^verbatim>\<open>OnArrayStart\<close> and
  \<^verbatim>\<open>OnArrayFinished\<close> are dropped by the code; \<^verbatim>\<open>OnObjectFinished\<close> is deferred, so it is
  called on every return of \<^verbatim>\<open>iterJSONFlat\<close> and its result is dropped too.
  \<^verbatim>\<open>iterJSONFlat\<close> passes \<^verbatim>\<open>true\<close> for \<^verbatim>\<open>dedot\<close> to the value of a field. A kind without a
  case (\<^verbatim>\<open>KindIgnore\<close>) falls through the switch to \<^verbatim>\<open>return nil\<close>.
\<close>

definition Document_iterJSONDedot :: "sink \<Rightarrow> Document \<Rightarrow> event list \<Rightarrow> error option \<times> event list" where
  "Document_iterJSONDedot w fs h = (Some ErrTODO, h)"

function Value_iterJSON :: "sink \<Rightarrow> Value \<Rightarrow> bool \<Rightarrow> event list \<Rightarrow> error option \<times> event list"
  and iterArr :: "sink \<Rightarrow> Value list \<Rightarrow> bool \<Rightarrow> event list \<Rightarrow> error option \<times> event list"
  and Document_iterJSON :: "sink \<Rightarrow> Document \<Rightarrow> bool \<Rightarrow> event list \<Rightarrow> error option \<times> event list"
  and Document_iterJSONFlat :: "sink \<Rightarrow> Document \<Rightarrow> event list \<Rightarrow> error option \<times> event list"
  and iterFields :: "sink \<Rightarrow> Document \<Rightarrow> event list \<Rightarrow> error option \<times> event list"
where
  "Value_iterJSON w (Value k p d s a dc t) dedot h =
     (case k of
        KindNil \<Rightarrow> call w OnNil h
      | KindBool \<Rightarrow> call w (OnBool (p = 1)) h
      | KindInt \<Rightarrow> call w (OnInt64 (sint p)) h
      | KindDouble \<Rightarrow>
          if IsNaN d \<or> IsInf d 0 then call w OnNil h else call w (OnFloat64 d) h
      | KindString \<Rightarrow> call w (OnString s) h
      | KindTimestamp \<Rightarrow> call w (OnString (Format t tsLayout)) h
      | KindObject \<Rightarrow>
          if length dc = 0 then call w OnNil h else Document_iterJSON w dc dedot h
      | KindArr \<Rightarrow>
          (case iterArr w a dedot (snd (call w OnArrayStart h)) of
             (Some err, h') \<Rightarrow> (Some err, h')
           | (None, h') \<Rightarrow> (None, snd (call w OnArrayFinished h')))
      | KindIgnore \<Rightarrow> (None, h))"
| "iterArr w [] dedot h = (None, h)"
| "iterArr w (x # xs) dedot h =
     (case Value_iterJSON w x dedot h of
        (Some err, h') \<Rightarrow> (Some err, h')
      | (None, h') \<Rightarrow> iterArr w xs dedot h')"
| "Document_iterJSON w fs dedot h =
     (if dedot then Document_iterJSONDedot w fs h else Document_iterJSONFlat w fs h)"
| "Document_iterJSONFlat w fs h =
     (case iterFields w fs (snd (call w OnObjectStart h)) of
        (r, h') \<Rightarrow> (r, snd (call w OnObjectFinished h')))"
| "iterFields w [] h = (None, h)"
| "iterFields w (fld # fs) h =
     (if kind (val fld) = KindIgnore \<or> kind (val fld) = KindNil \<or>
         (kind (val fld) = KindArr \<and> length (arr (val fld)) = 0)
      then iterFields w fs h
      else (case Value_iterJSON w (val fld) True (snd (call w (OnKey (key fld)) h)) of
              (Some err, h') \<Rightarrow> (Some err, h')
            | (None, h') \<Rightarrow> iterFields w fs h'))"
  by pat_completeness auto
termination
  by (relation "measure (\<lambda>x. case x of
        Inl (Inl (w, v, dedot, h)) \<Rightarrow> 3 * size v
      | Inl (Inr (w, a, dedot, h)) \<Rightarrow> 3 * size_list size a
      | Inr (Inl (w, fs, dedot, h)) \<Rightarrow> 3 * size_list (size_prod (\<lambda>x. 0) size) fs + 2
      | Inr (Inr (Inl (w, fs, h))) \<Rightarrow> 3 * size_list (size_prod (\<lambda>x. 0) size) fs + 1
      | Inr (Inr (Inr (w, fs, h))) \<Rightarrow> 3 * size_list (size_prod (\<lambda>x. 0) size) fs)")
    auto

text \<open>\<^verbatim>\<open>Document.Serialize\<close> starts a new visitor: no call has been made.\<close>

definition Serialize :: "sink \<Rightarrow> Document \<Rightarrow> bool \<Rightarrow> error option \<times> event list" where
  "Serialize w d dedot = Document_iterJSON w d dedot []"

text \<open>A sink that accepts every call.\<close>

definition okSink :: sink where
  "okSink h ev = None"

subsection \<open>Notions used to state the properties\<close>

text \<open>
  The eleven exponent bits of a \<^verbatim>\<open>float64\<close>; a value is finite exactly when they are not
  all ones.
\<close>

definition exponentBits :: "float64 \<Rightarrow> 64 word" where
  "exponentBits f = drop_bit 52 f AND 0x7FF"

text \<open>
  The calls of the visitor whose result \<^verbatim>\<open>Value.iterJSON\<close> returns: the calls that write a
  scalar. The results of \<^verbatim>\<open>OnKey\<close> and of the start and finish calls are dropped by the code.
\<close>

fun isValueEvent :: "event \<Rightarrow> bool" where
  "isValueEvent OnNil = True"
| "isValueEvent (OnBool b) = True"
| "isValueEvent (OnInt64 i) = True"
| "isValueEvent (OnFloat64 d) = True"
| "isValueEvent (OnString s) = True"
| "isValueEvent ev = False"

text \<open>
  \<open>valueCallsOk w h evs\<close>: in the calls \<open>evs\<close> made after the history \<open>h\<close>, the sink
  accepted every scalar call.
\<close>

fun valueCallsOk :: "sink \<Rightarrow> event list \<Rightarrow> event list \<Rightarrow> bool" where
  "valueCallsOk w h [] = True"
| "valueCallsOk w h (ev # evs) =
     ((if isValueEvent ev then w h ev = None else True) \<and> valueCallsOk w (h @ [ev]) evs)"

text \<open>
  \<open>failedAt w h pre e\<close>: the calls \<open>pre\<close> made after \<open>h\<close> end where the error \<open>e\<close> arose.
  Either \<open>e\<close> is the error of \<^verbatim>\<open>iterJSONDedot\<close>, or the last call of \<open>pre\<close> is a scalar
  call that the sink answered with \<open>e\<close>; every scalar call before it was accepted.
\<close>

definition failedAt :: "sink \<Rightarrow> event list \<Rightarrow> event list \<Rightarrow> error \<Rightarrow> bool" where
  "failedAt w h pre e =
     (e = ErrTODO \<and> valueCallsOk w h pre \<or>
      pre \<noteq> [] \<and> isValueEvent (last pre) \<and> w (h @ butlast pre) (last pre) = Some e \<and>
        valueCallsOk w h (butlast pre))"

definition traceOk :: "sink \<Rightarrow> event list \<Rightarrow> error option \<times> event list \<Rightarrow> bool" where
  "traceOk w h res =
     (\<exists>evs. snd res = h @ evs \<and>
        (case fst res of
           None \<Rightarrow> valueCallsOk w h evs
         | Some e \<Rightarrow> \<exists>pre k. evs = pre @ replicate k OnObjectFinished \<and> failedAt w h pre e))"



text \<open>
  The ranges of the fields of a \<^verbatim>\<open>time.Time\<close> read in UTC.
\<close>

definition validTime :: "Time \<Rightarrow> bool" where
  "validTime t = (1 \<le> Month t \<and> Month t \<le> 12 \<and> 1 \<le> Day t \<and> Day t \<le> 31 \<and>
     Hour t < 24 \<and> Minute t < 60 \<and> Second t < 60 \<and> Nanosecond t < 1000000000)"

definition isDigitChar :: "char \<Rightarrow> bool" where
  "isDigitChar c = (CHR ''0'' \<le> c \<and> c \<le> CHR ''9'')"

text \<open>
  \<open>noPrefixPair ks\<close>: no key of \<open>ks\<close> is followed by a longer key that it is a prefix of,
  in the sense of the test of the first pass of \<^verbatim>\<open>Dedup\<close>. \<open>stableDoc\<close> asks this of a
  document and of every document nested in its values.
\<close>

fun noPrefixPair :: "string list \<Rightarrow> bool" where
  "noPrefixPair (k1 # k2 # ks) =
     (if length k1 < length k2 \<and> HasPrefix k2 k1 then False else noPrefixPair (k2 # ks))"
| "noPrefixPair ks = True"

fun stableDoc :: "Document \<Rightarrow> bool"
  and stableVal :: "Value \<Rightarrow> bool"
where
  "stableDoc fs = (noPrefixPair (map key fs) \<and> list_all (\<lambda>f. stableVal (val f)) fs)"
| "stableVal (Value k p d s a dc t) =
     (if k = KindObject then stableDoc dc
      else if k = KindArr then list_all stableVal a
      else True)"

text \<open>
  Conditions on a document before \<^verbatim>\<open>Dedup\<close>. \<open>noValueChild ks\<close>: no key is followed by a
  key that starts with it and \<open>.value\<close>. \<open>noDupParent ks\<close>: no key that is repeated by
  the key after it is a shorter prefix of the key after that. \<open>collisionFree\<close> asks both of
  the keys of a document and of every document nested in its values; \<open>sortedDoc\<close> asks
  that the keys are in ascending order, at every level, as \<^verbatim>\<open>Sort\<close> leaves them.
\<close>

fun noValueChild :: "string list \<Rightarrow> bool" where
  "noValueChild (k1 # k2 # ks) =
     (if HasPrefix k2 (k1 @ ''.value'') then False else noValueChild (k2 # ks))"
| "noValueChild ks = True"

fun noDupParent :: "string list \<Rightarrow> bool" where
  "noDupParent (k1 # k2 # k3 # ks) =
     (if k1 = k2 \<and> length k2 < length k3 \<and> HasPrefix k3 k2 then False
      else noDupParent (k2 # k3 # ks))"
| "noDupParent ks = True"

fun collisionFree :: "Document \<Rightarrow> bool"
  and collisionFreeVal :: "Value \<Rightarrow> bool"
where
  "collisionFree fs =
     (noValueChild (map key fs) \<and> noDupParent (map key fs) \<and>
      list_all (\<lambda>f. collisionFreeVal (val f)) fs)"
| "collisionFreeVal (Value k p d s a dc t) =
     (if k = KindObject then collisionFree dc
      else if k = KindArr then list_all collisionFreeVal a
      else True)"

fun sortedDoc :: "Document \<Rightarrow> bool"
  and sortedVal :: "Value \<Rightarrow> bool"
where
  "sortedDoc fs = (sorted (map key fs) \<and> list_all (\<lambda>f. sortedVal (val f)) fs)"
| "sortedVal (Value k p d s a dc t) =
     (if k = KindObject then sortedDoc dc
      else if k = KindArr then list_all sortedVal a
      else True)"

section \<open>Properties\<close>

lemma Sort_fields_stable:
  "sorted (map key (sort_key key fs))"
  "filter (\<lambda>f. key f = k) (sort_key key fs) = filter (\<lambda>f. key f = k) fs"
  by (simp_all add: sort_key_stable)

lemma call_simps [simp]: "fst (call w ev h) = w h ev" "snd (call w ev h) = h @ [ev]"
  by (simp_all add: call_def)

subsection \<open>Integers\<close>

lemma sint_int64: "- (2 ^ 63) \<le> n \<Longrightarrow> n < 2 ^ 63 \<Longrightarrow> sint (word_of_int n :: 64 word) = n"
  by (simp add: sint_sbintrunc' signed_take_bit_int_eq_self)

text \<open>
  Claim C10. For every \<^verbatim>\<open>int64\<close> value \<open>n\<close>, negative ones included, the payload that
  \<^verbatim>\<open>IntValue\<close> stores reads back as \<open>n\<close>, the value is serialized by the one call
  \<^verbatim>\<open>OnInt64(n)\<close>, and a flat document holding it under a key emits exactly that integer.
\<close>

theorem IntValue_roundtrip:
  assumes "- (2 ^ 63) \<le> n" and "n < 2 ^ 63"
  shows "sint (primitive (IntValue n)) = n \<and>
    Value_iterJSON w (IntValue n) dedot h = call w (OnInt64 n) h \<and>
    Serialize w [(k, IntValue n)] False =
      (w [OnObjectStart, OnKey k] (OnInt64 n),
       [OnObjectStart, OnKey k, OnInt64 n, OnObjectFinished])"
  using assms
  by (auto simp: IntValue_def Serialize_def sint_int64 call_def split: option.splits prod.splits)

theorem IntValue_roundtrip_witness:
  "sint (primitive (IntValue (- 9223372036854775808))) = - 9223372036854775808 \<and>
   primitive (IntValue (- 1)) = 0xFFFFFFFFFFFFFFFF \<and>
   Serialize okSink [(''n'', IntValue (- 1))] False =
     (None, [OnObjectStart, OnKey ''n'', OnInt64 (- 1), OnObjectFinished])"
  using IntValue_roundtrip [of "- 9223372036854775808" okSink False "[]" "''n''"]
    IntValue_roundtrip [of "- 1" okSink False "[]" "''n''"]
  by (simp add: okSink_def IntValue_def)

subsection \<open>Importing attributes\<close>

lemma kind_ValueFromAttribute:
  "kind (ValueFromAttribute attr) = KindObject \<longleftrightarrow> (\<exists>am. attr = AttributeValueMAP am)"
  by (cases attr)
    (simp_all add: IntValue_def DoubleValue_def StringValue_def BoolValue_def ArrValue_def
      ObjectValue_def nilValue_def zeroValue_def)

lemma append_no_Object:
  "ValueFromAttribute attr0 = ValueFromAttribute attr0"
  "arrFromAttributes aa = arrFromAttributes aa"
  "\<forall>f \<in> set fs. kind (val f) \<noteq> KindObject \<Longrightarrow>
     \<forall>f \<in> set (appendAttributeFields fs path am). kind (val f) \<noteq> KindObject"
  "\<forall>f \<in> set fs. kind (val f) \<noteq> KindObject \<Longrightarrow>
     \<forall>f \<in> set (appendAttributeValue fs path k attr). kind (val f) \<noteq> KindObject"
proof (induction attr0 and aa and fs path am and fs path k attr
    rule: ValueFromAttribute_arrFromAttributes_appendAttributeFields_appendAttributeValue.induct)
qed (auto simp: IntValue_def DoubleValue_def StringValue_def BoolValue_def ArrValue_def)

text \<open>
  Claim C9. No field of an imported document is an Object: a map attribute appends the fields
  of its children, imported under the path extended by its key (\<open>key\<close> for the empty path,
  \<open>path.key\<close> otherwise). Importing \<^verbatim>\<open>{"a": {"b": 1, "c": 2}}\<close> under the empty path gives
  exactly the fields \<open>a.b = 1\<close> and \<open>a.c = 2\<close>.
\<close>

theorem import_flattens_maps:
  "(\<forall>f \<in> set (DocumentFromAttributesWithPath path am). kind (val f) \<noteq> KindObject) \<and>
   appendAttributeValue fs path k (AttributeValueMAP m) =
     appendAttributeFields fs (if path = [] then k else path @ ''.'' @ k) m \<and>
   DocumentFromAttributesWithPath []
     [(''a'', AttributeValueMAP [(''b'', AttributeValueINT 1), (''c'', AttributeValueINT 2)])] =
     [(''a.b'', IntValue 1), (''a.c'', IntValue 2)]"
  using append_no_Object(3) [of "[]" path am]
  by (simp add: DocumentFromAttributesWithPath_def flattenKey_def)

theorem import_flattens_maps_witness:
  "kind (val (hd (DocumentFromAttributesWithPath ''p''
      [(''a'', AttributeValueMAP [(''b'', AttributeValueINT 1)])]))) \<noteq> KindObject \<and>
   DocumentFromAttributesWithPath ''p'' [(''a'', AttributeValueMAP [(''b'', AttributeValueINT 1)])] =
     [(''p.a.b'', IntValue 1)]"
  using import_flattens_maps [of "''p''" "[(''a'', AttributeValueMAP [(''b'', AttributeValueINT 1)])]"]
  by (simp add: DocumentFromAttributesWithPath_def flattenKey_def IntValue_def)

subsection \<open>Doubles\<close>

lemma exponentBits_unat: "exponentBits d = 0x7FF \<longleftrightarrow> unat d div 2 ^ 52 mod 2 ^ 11 = 2047"
proof -
  have m: "(0x7FF :: 64 word) = mask 11" by (simp add: mask_eq_exp_minus_1)
  have "exponentBits d = take_bit 11 (drop_bit 52 d)"
    unfolding exponentBits_def m by (simp add: take_bit_eq_mask)
  then have "unat (exponentBits d) = unat d div 2 ^ 52 mod 2 ^ 11"
    by (simp add: take_bit_eq_mod drop_bit_eq_div unat_div unat_mod)
  moreover have "exponentBits d = 0x7FF \<longleftrightarrow> unat (exponentBits d) = unat (0x7FF :: 64 word)"
    by (simp only: word_unat_eq_iff)
  ultimately show ?thesis by simp
qed

lemma fraction_unat: "d AND 0xFFFFFFFFFFFFF = 0 \<longleftrightarrow> unat (d :: 64 word) mod 2 ^ 52 = 0"
proof -
  have m: "(0xFFFFFFFFFFFFF :: 64 word) = mask 52" by (simp add: mask_eq_exp_minus_1)
  have "d AND 0xFFFFFFFFFFFFF = take_bit 52 d"
    unfolding m by (simp add: take_bit_eq_mask)
  then have "unat (d AND 0xFFFFFFFFFFFFF) = unat d mod 2 ^ 52"
    by (simp add: take_bit_eq_mod unat_mod)
  moreover have "d AND 0xFFFFFFFFFFFFF = 0 \<longleftrightarrow> unat (d AND 0xFFFFFFFFFFFFF) = 0"
    by (simp add: unat_eq_0)
  ultimately show ?thesis by simp
qed

lemma inf_unat:
  "(d :: 64 word) = 0x7FF0000000000000 \<longleftrightarrow> unat d = 2047 * 2 ^ 52"
  "(d :: 64 word) = 0xFFF0000000000000 \<longleftrightarrow> unat d = 4095 * 2 ^ 52"
  by (simp_all add: word_unat_eq_iff)

lemma nat_split52:
  fixes x :: nat
  assumes "x < 2 ^ 64" and "x div 2 ^ 52 mod 2 ^ 11 = 2047" and "x mod 2 ^ 52 = 0"
  shows "x = 2047 * 2 ^ 52 \<or> x = 4095 * 2 ^ 52"
proof -
  define q where "q = x div 2 ^ 52"
  have x: "x = q * 2 ^ 52" using assms(3) by (simp add: q_def mod_eq_0_iff_dvd)
  have "q < 2 ^ 12" using assms(1) unfolding q_def by (simp add: less_mult_imp_div_less)
  then have "q div 2048 < 2" by (simp add: less_mult_imp_div_less)
  then have c: "q div 2048 = 0 \<or> q div 2048 = 1" by linarith
  have m: "q mod 2048 = 2047" using assms(2) by (simp add: q_def)
  have "q = 2048 * (q div 2048) + q mod 2048" by simp
  with c m have "q = 2047 \<or> q = 4095" by auto
  with x show ?thesis by auto
qed

lemma nonfinite_iff: "IsNaN d \<or> IsInf d 0 \<longleftrightarrow> exponentBits d = 0x7FF"
proof
  assume "IsNaN d \<or> IsInf d 0"
  then show "exponentBits d = 0x7FF"
    by (auto simp: IsNaN_def IsInf_def exponentBits_def)
next
  assume e: "exponentBits d = 0x7FF"
  show "IsNaN d \<or> IsInf d 0"
  proof (cases "d AND 0xFFFFFFFFFFFFF = 0")
    case True
    have "unat d < 2 ^ 64" using unsigned_less [of d] by simp
    then have "unat d = 2047 * 2 ^ 52 \<or> unat d = 4095 * 2 ^ 52"
      using e True nat_split52 [of "unat d"] by (simp add: exponentBits_unat fraction_unat)
    then show ?thesis by (simp add: IsInf_def inf_unat)
  next
    case False
    with e show ?thesis by (simp add: IsNaN_def exponentBits_def)
  qed
qed

text \<open>
  Claim C8. A Double whose exponent bits are all ones (a NaN or an infinity) is serialized by
  the call \<^verbatim>\<open>OnNil\<close>, every other Double by \<^verbatim>\<open>OnFloat64\<close> with its payload. Positive
  infinity, negative infinity and a NaN are written by \<^verbatim>\<open>OnNil\<close>, the finite 1.0 by
  \<^verbatim>\<open>OnFloat64\<close>.
\<close>

theorem Double_nonfinite_null:
  "Value_iterJSON w (DoubleValue d) dedot h =
     (if exponentBits d = 0x7FF then call w OnNil h else call w (OnFloat64 d) h) \<and>
   Value_iterJSON w (DoubleValue 0x7FF0000000000000) dedot h = call w OnNil h \<and>
   Value_iterJSON w (DoubleValue 0xFFF0000000000000) dedot h = call w OnNil h \<and>
   Value_iterJSON w (DoubleValue 0x7FF8000000000001) dedot h = call w OnNil h \<and>
   Value_iterJSON w (DoubleValue 0x3FF0000000000000) dedot h = call w (OnFloat64 0x3FF0000000000000) h"
proof -
  have g: "Value_iterJSON w (DoubleValue x) dedot h =
     (if exponentBits x = 0x7FF then call w OnNil h else call w (OnFloat64 x) h)" for x
    using nonfinite_iff [of x] by (simp add: DoubleValue_def)
  show ?thesis
    by (simp add: g) (simp add: exponentBits_def)
qed

subsection \<open>Failures while serializing\<close>

lemma valueCallsOk_append:
  "valueCallsOk w h (xs @ ys) = (valueCallsOk w h xs \<and> valueCallsOk w (h @ xs) ys)"
  by (induction xs arbitrary: h) auto

lemma failedAt_append:
  assumes "valueCallsOk w h xs" and "failedAt w (h @ xs) pre e"
  shows "failedAt w h (xs @ pre) e"
  using assms
  by (auto simp: failedAt_def valueCallsOk_append butlast_append)

lemma traceOk_SomeI:
  assumes "h' = h @ pre @ replicate k OnObjectFinished" and "failedAt w h pre e"
  shows "traceOk w h (Some e, h')"
  unfolding traceOk_def
proof (intro exI conjI)
  show "snd (Some e, h') = h @ (pre @ replicate k OnObjectFinished)"
    using assms(1) by simp
  have "\<exists>pre' k'. pre @ replicate k OnObjectFinished = pre' @ replicate k' OnObjectFinished \<and>
      failedAt w h pre' e"
    using assms(2) by blast
  then show "case fst (Some e, h') of
      None \<Rightarrow> valueCallsOk w h (pre @ replicate k OnObjectFinished)
    | Some e \<Rightarrow> \<exists>pre' k'. pre @ replicate k OnObjectFinished =
        pre' @ replicate k' OnObjectFinished \<and> failedAt w h pre' e"
    by simp
qed

lemma traceOk_SomeE:
  assumes "traceOk w h (Some e, h')"
  obtains pre k where "h' = h @ pre @ replicate k OnObjectFinished" and "failedAt w h pre e"
  using assms unfolding traceOk_def by auto

lemma traceOk_None_iff:
  "traceOk w h (None, h') \<longleftrightarrow> (\<exists>evs. h' = h @ evs \<and> valueCallsOk w h evs)"
  unfolding traceOk_def by simp

lemma traceOk_none: "traceOk w h (None, h)"
  by (simp add: traceOk_def)

lemma traceOk_TODO: "traceOk w h (Some ErrTODO, h)"
  by (rule traceOk_SomeI [of _ _ "[]" 0]) (simp_all add: failedAt_def)

lemma traceOk_call: "isValueEvent ev \<Longrightarrow> traceOk w h (call w ev h)"
proof (cases "w h ev")
  case None
  assume "isValueEvent ev"
  with None show ?thesis by (simp add: traceOk_def call_def)
next
  case (Some e)
  assume v: "isValueEvent ev"
  have "traceOk w h (Some e, h @ [ev])"
    by (rule traceOk_SomeI [of _ _ "[ev]" 0]) (use v Some in \<open>simp_all add: failedAt_def\<close>)
  with Some show ?thesis by (simp add: call_def)
qed

lemma traceOk_seq:
  assumes "traceOk w h (None, h1)" and "traceOk w h1 res"
  shows "traceOk w h res"
proof -
  obtain evs1 where e1: "h1 = h @ evs1" "valueCallsOk w h evs1"
    using assms(1) by (auto simp: traceOk_None_iff)
  obtain r h2 where res: "res = (r, h2)" by (cases res)
  show ?thesis
  proof (cases r)
    case None
    then obtain evs2 where "h2 = h1 @ evs2" "valueCallsOk w h1 evs2"
      using assms(2) res by (auto simp: traceOk_None_iff)
    then have "h2 = h @ (evs1 @ evs2) \<and> valueCallsOk w h (evs1 @ evs2)"
      using e1 by (simp add: valueCallsOk_append)
    then show ?thesis unfolding res None traceOk_None_iff by blast
  next
    case (Some e)
    then obtain pre k where p: "h2 = h1 @ pre @ replicate k OnObjectFinished" "failedAt w h1 pre e"
      using assms(2) res by (auto elim: traceOk_SomeE)
    have fa: "failedAt w h (evs1 @ pre) e"
      using failedAt_append [of w h evs1 pre e] e1 p by simp
    have "h2 = h @ (evs1 @ pre) @ replicate k OnObjectFinished"
      using p(1) e1(1) by simp
    then show ?thesis unfolding res Some using fa by (rule traceOk_SomeI)
  qed
qed

lemma traceOk_step:
  assumes "\<not> isValueEvent ev" and "traceOk w (h @ [ev]) res"
  shows "traceOk w h res"
proof -
  have "traceOk w h (None, h @ [ev])"
    using assms(1) by (simp add: traceOk_def)
  then show ?thesis using assms(2) by (rule traceOk_seq)
qed

lemma traceOk_close:
  assumes "traceOk w h (r, h')"
  shows "traceOk w h (r, h' @ [OnObjectFinished])"
proof (cases r)
  case None
  with assms show ?thesis by (auto simp: traceOk_None_iff valueCallsOk_append)
next
  case (Some e)
  with assms obtain pre k where p: "h' = h @ pre @ replicate k OnObjectFinished" "failedAt w h pre e"
    by (auto elim: traceOk_SomeE)
  have "h' @ [OnObjectFinished] = h @ pre @ replicate (Suc k) OnObjectFinished"
    using p(1) by (simp add: replicate_append_same)
  then show ?thesis unfolding Some using p(2) by (rule traceOk_SomeI)
qed

lemma traceOk_closeArr:
  assumes "traceOk w h (None, h')"
  shows "traceOk w h (None, h' @ [OnArrayFinished])"
  using assms by (auto simp: traceOk_None_iff valueCallsOk_append)

lemma traceOk_all:
  "traceOk w h (Value_iterJSON w v dedot h)"
  "traceOk w h (iterArr w a dedot h)"
  "traceOk w h (Document_iterJSON w fs dedot h)"
  "traceOk w h (Document_iterJSONFlat w fs h)"
  "traceOk w h (iterFields w fs h)"
proof (induction w v dedot h and w a dedot h and w fs dedot h and w fs h and w fs h
    rule: Value_iterJSON_iterArr_Document_iterJSON_Document_iterJSONFlat_iterFields.induct)
  case (1 w k p d s a dc t dedot h)
  show ?case
  proof (cases k)
    case KindArr
    have st: "\<not> isValueEvent OnArrayStart" by simp
    obtain r h' where res: "iterArr w a dedot (h @ [OnArrayStart]) = (r, h')"
      by (cases "iterArr w a dedot (h @ [OnArrayStart])")
    have t: "traceOk w (h @ [OnArrayStart]) (r, h')"
      using "1.IH"(1) [OF KindArr] res by simp
    show ?thesis
    proof (cases r)
      case None
      have "traceOk w (h @ [OnArrayStart]) (None, h' @ [OnArrayFinished])"
        using t None by (simp add: traceOk_closeArr)
      then have "traceOk w h (None, h' @ [OnArrayFinished])"
        using st by (rule traceOk_step [rotated])
      with KindArr res None show ?thesis by simp
    next
      case (Some e)
      have "traceOk w h (r, h')" using st t by (rule traceOk_step)
      with KindArr res Some show ?thesis by simp
    qed
  next
    case KindObject
    then show ?thesis using "1.IH"(2) by (simp add: traceOk_call)
  qed (simp_all add: traceOk_call traceOk_none)
next
  case (2 w dedot h)
  show ?case by (simp add: traceOk_none)
next
  case (3 w x xs dedot h)
  obtain r h' where res: "Value_iterJSON w x dedot h = (r, h')"
    by (cases "Value_iterJSON w x dedot h")
  show ?case
  proof (cases r)
    case None
    have "traceOk w h (None, h')" using "3.IH"(1) res None by simp
    moreover have "traceOk w h' (iterArr w xs dedot h')"
      using "3.IH"(2) [OF res [symmetric]] None by simp
    ultimately have "traceOk w h (iterArr w xs dedot h')" by (rule traceOk_seq)
    with res None show ?thesis by simp
  next
    case (Some e)
    with "3.IH"(1) res show ?thesis by simp
  qed
next
  case (4 w fs dedot h)
  then show ?case by (cases dedot) (simp_all add: Document_iterJSONDedot_def traceOk_TODO)
next
  case (5 w fs h)
  obtain r h' where res: "iterFields w fs (h @ [OnObjectStart]) = (r, h')"
    by (cases "iterFields w fs (h @ [OnObjectStart])")
  have "traceOk w (h @ [OnObjectStart]) (r, h')" using "5.IH" res by simp
  then have "traceOk w (h @ [OnObjectStart]) (r, h' @ [OnObjectFinished])"
    by (rule traceOk_close)
  then have "traceOk w h (r, h' @ [OnObjectFinished])"
    by (rule traceOk_step [rotated]) simp
  with res show ?case by simp
next
  case (6 w h)
  show ?case by (simp add: traceOk_none)
next
  case (7 w fld fs h)
  show ?case
  proof (cases "kind (val fld) = KindIgnore \<or> kind (val fld) = KindNil \<or>
         (kind (val fld) = KindArr \<and> length (arr (val fld)) = 0)")
    case True
    with "7.IH"(1) show ?thesis by auto
  next
    case False
    obtain r h' where res0:
      "Value_iterJSON w (val fld) True (snd (call w (OnKey (key fld)) h)) = (r, h')"
      by (cases "Value_iterJSON w (val fld) True (snd (call w (OnKey (key fld)) h))")
    then have res: "Value_iterJSON w (val fld) True (h @ [OnKey (key fld)]) = (r, h')"
      by simp
    have t: "traceOk w (h @ [OnKey (key fld)]) (r, h')"
      using "7.IH"(2) [OF False] res by simp
    show ?thesis
    proof (cases r)
      case None
      have "traceOk w (h @ [OnKey (key fld)]) (iterFields w fs h')"
        using t None "7.IH"(3) [OF False res0 [symmetric]]
        by (auto intro: traceOk_seq)
      then have "traceOk w h (iterFields w fs h')"
        by (rule traceOk_step [rotated]) simp
      with False res None show ?thesis by auto
    next
      case (Some e)
      have "traceOk w h (r, h')" using t by (rule traceOk_step [rotated]) simp
      with False res Some show ?thesis by auto
    qed
  qed
qed

lemma traceOk_extends:
  assumes "traceOk w h (r, h')"
  shows "\<exists>evs. h' = h @ evs"
  using assms unfolding traceOk_def by auto


subsection \<open>Nested objects in flat mode\<close>


text \<open>
  Claim C1 at a failing input. \<^verbatim>\<open>iterJSONFlat\<close> passes \<^verbatim>\<open>true\<close> for \<^verbatim>\<open>dedot\<close> to every
  field value, so a non-empty Object below a flat document is handed to \<^verbatim>\<open>iterJSONDedot\<close>:
  flat serialization of the attributes \<^verbatim>\<open>{"a": [{"b": 1}]}\<close> returns the error and emits
  no nested object.
\<close>

theorem flat_nested_object_fails:
  "Serialize okSink (DocumentFromAttributes
      [(''a'', AttributeValueARRAY [AttributeValueMAP [(''b'', AttributeValueINT 1)]])]) False =
     (Some ErrTODO, [OnObjectStart, OnKey ''a'', OnArrayStart, OnObjectFinished]) \<and>
   Serialize okSink [(''o'', ObjectValue [(''b'', IntValue 1)])] False =
     (Some ErrTODO, [OnObjectStart, OnKey ''o'', OnObjectFinished])"
  by (simp add: Serialize_def DocumentFromAttributes_def DocumentFromAttributesWithPath_def
      flattenKey_def ArrValue_def ObjectValue_def IntValue_def Document_iterJSONDedot_def
      okSink_def call_def)

subsection \<open>The prefix rename of Dedup\<close>

text \<open>What the first pass of \<^verbatim>\<open>Dedup\<close> does to the field at each position.\<close>

lemma Dedup_rename_nth:
  "i < length fs \<Longrightarrow> Dedup_rename 0 fs ! i =
     (if Suc i < length fs \<and> length (key (fs ! i)) < length (key (fs ! Suc i)) \<and>
         HasPrefix (key (fs ! Suc i)) (key (fs ! i))
      then (key (fs ! i) @ ''.value'', val (fs ! i))
      else fs ! i)"
  unfolding Dedup_rename_0 by (rule renamePairs_nth)

text \<open>
  Claim C2 at a failing input. The first pass tests \<^verbatim>\<open>strings.HasPrefix\<close> only, so the key
  \<open>ab\<close> followed by \<open>abc\<close> is renamed to \<open>ab.value\<close> although \<open>ab\<close> is no path prefix of
  \<open>abc\<close>. The pair \<open>a\<close>, \<open>a.b\<close> is renamed as the claim says.
\<close>

theorem Dedup_renames_string_prefix:
  "Document_Dedup (Document_Sort [(''ab'', IntValue 1), (''abc'', IntValue 2)]) =
     [(''ab.value'', IntValue 1), (''abc'', IntValue 2)] \<and>
   Document_Dedup (Document_Sort [(''a'', IntValue 1), (''a.b'', StringValue ''x'')]) =
     [(''a.value'', IntValue 1), (''a.b'', StringValue ''x'')]"
  by code_simp

subsection \<open>Filtered fields and empty objects\<close>

lemma iterFields_skip:
  assumes "kind v = KindIgnore \<or> kind v = KindNil \<or> (kind v = KindArr \<and> length (arr v) = 0)"
  shows "iterFields w (fs1 @ (k, v) # fs2) h = iterFields w (fs1 @ fs2) h"
  using assms by (induction fs1 arbitrary: h) (auto split: prod.splits option.splits)

lemma Value_iterJSON_extends: "\<exists>evs. snd (Value_iterJSON w v dedot h) = h @ evs"
  using traceOk_all(1) [of w h v dedot] traceOk_extends [of w h "fst (Value_iterJSON w v dedot h)"]
  by simp

lemma iterFields_extends: "\<exists>evs. snd (iterFields w fs h) = h @ evs"
  using traceOk_all(5) [of w h fs] traceOk_extends [of w h "fst (iterFields w fs h)"]
  by simp

lemma iterFields_key_emitted:
  assumes "iterFields w fs h = (None, h')" and "(k, v) \<in> set fs"
    and "\<not> (kind v = KindIgnore \<or> kind v = KindNil \<or> (kind v = KindArr \<and> length (arr v) = 0))"
  shows "OnKey k \<in> set h'"
  using assms
proof (induction fs arbitrary: h)
  case Nil
  then show ?case by simp
next
  case (Cons fld fs)
  show ?case
  proof (cases "kind (val fld) = KindIgnore \<or> kind (val fld) = KindNil \<or>
         (kind (val fld) = KindArr \<and> length (arr (val fld)) = 0)")
    case True
    then have "(k, v) \<noteq> fld" using Cons.prems(3) by auto
    then have "(k, v) \<in> set fs" using Cons.prems(2) by simp
    moreover have "iterFields w fs h = (None, h')" using Cons.prems(1) True by auto
    ultimately show ?thesis using Cons.IH Cons.prems(3) by blast
  next
    case False
    obtain r h1 where res: "Value_iterJSON w (val fld) True (h @ [OnKey (key fld)]) = (r, h1)"
      by (cases "Value_iterJSON w (val fld) True (h @ [OnKey (key fld)])")
    from Cons.prems(1) False res have r: "r = None" and rest: "iterFields w fs h1 = (None, h')"
      by (auto split: option.splits)
    show ?thesis
    proof (cases "(k, v) = fld")
      case True
      obtain evs1 where "h1 = (h @ [OnKey (key fld)]) @ evs1"
        using Value_iterJSON_extends [of w "val fld" True "h @ [OnKey (key fld)]"] res by auto
      moreover obtain evs2 where "h' = h1 @ evs2"
        using iterFields_extends [of w fs h1] rest by auto
      ultimately show ?thesis using True by auto
    next
      case False
      then have "(k, v) \<in> set fs" using Cons.prems(2) by auto
      then show ?thesis using Cons.IH [OF rest] Cons.prems(3) by blast
    qed
  qed
qed

lemma iterFields_first_key:
  assumes "\<not> (kind v = KindIgnore \<or> kind v = KindNil \<or> (kind v = KindArr \<and> length (arr v) = 0))"
  shows "\<exists>evs. snd (iterFields w ((k, v) # fs) h) = h @ OnKey k # evs"
proof -
  obtain r h1 where res: "Value_iterJSON w v True (h @ [OnKey k]) = (r, h1)"
    by (cases "Value_iterJSON w v True (h @ [OnKey k])")
  obtain evs1 where e1: "h1 = (h @ [OnKey k]) @ evs1"
    using Value_iterJSON_extends [of w v True "h @ [OnKey k]"] res by auto
  have eq: "iterFields w ((k, v) # fs) h =
      (case r of None \<Rightarrow> iterFields w fs h1 | Some err \<Rightarrow> (Some err, h1))"
    using assms res by (auto split: option.splits)
  show ?thesis
  proof (cases r)
    case None
    obtain evs2 where "snd (iterFields w fs h1) = h1 @ evs2"
      using iterFields_extends [of w fs h1] by auto
    then show ?thesis unfolding eq None e1 by simp
  next
    case (Some e)
    show ?thesis unfolding eq Some e1 by simp
  qed
qed

lemma Serialize_flat:
  "Serialize w d False =
     (fst (iterFields w d [OnObjectStart]), snd (iterFields w d [OnObjectStart]) @ [OnObjectFinished])"
  by (simp add: Serialize_def split: prod.splits)

lemma iterFields_append:
  "iterFields w (fs1 @ fs2) h =
     (case iterFields w fs1 h of
        (Some err, h') \<Rightarrow> (Some err, h')
      | (None, h') \<Rightarrow> iterFields w fs2 h')"
  by (induction fs1 arbitrary: h) (auto split: prod.splits option.splits)

lemma Serialize_None_fields:
  "Serialize w fs False = (None, h1 @ [OnObjectFinished]) \<longleftrightarrow> iterFields w fs [OnObjectStart] = (None, h1)"
  unfolding Serialize_flat by (cases "iterFields w fs [OnObjectStart]") auto

lemma field_at_position:
  assumes nf: "\<not> (kind v = KindIgnore \<or> kind v = KindNil \<or> (kind v = KindArr \<and> length (arr v) = 0))"
    and s1: "Serialize w fs1 False = (None, h1 @ [OnObjectFinished])"
  shows "\<exists>evs rest. snd (Value_iterJSON w v True (h1 @ [OnKey k])) = h1 @ OnKey k # evs \<and>
      snd (Serialize w (fs1 @ (k, v) # fs2) False) = h1 @ OnKey k # evs @ rest"
proof -
  have f1: "iterFields w fs1 [OnObjectStart] = (None, h1)"
    using s1 by (simp add: Serialize_None_fields)
  obtain r h' where res: "Value_iterJSON w v True (h1 @ [OnKey k]) = (r, h')"
    by (cases "Value_iterJSON w v True (h1 @ [OnKey k])")
  obtain evs where e1: "h' = h1 @ OnKey k # evs"
    using Value_iterJSON_extends [of w v True "h1 @ [OnKey k]"] res by auto
  have step: "iterFields w (fs1 @ (k, v) # fs2) [OnObjectStart] =
      (case r of None \<Rightarrow> iterFields w fs2 h' | Some err \<Rightarrow> (Some err, h'))"
    using f1 nf res by (auto simp: iterFields_append split: option.splits)
  obtain evs2 where e2: "snd (iterFields w fs2 h') = h' @ evs2"
    using iterFields_extends [of w fs2 h'] by auto
  have "\<exists>rest. snd (Serialize w (fs1 @ (k, v) # fs2) False) = h1 @ OnKey k # evs @ rest"
  proof (cases r)
    case None
    then have "snd (Serialize w (fs1 @ (k, v) # fs2) False) = h1 @ OnKey k # evs @ (evs2 @ [OnObjectFinished])"
      unfolding Serialize_flat step using e1 e2 by simp
    then show ?thesis by blast
  next
    case (Some err)
    then have "snd (Serialize w (fs1 @ (k, v) # fs2) False) = h1 @ OnKey k # evs @ [OnObjectFinished]"
      unfolding Serialize_flat step using e1 by simp
    then show ?thesis by blast
  qed
  then show ?thesis using res e1 by auto
qed

lemma field_appended:
  assumes nf: "\<not> (kind v = KindIgnore \<or> kind v = KindNil \<or> (kind v = KindArr \<and> length (arr v) = 0))"
    and s1: "Serialize w fs1 False = (None, h1 @ [OnObjectFinished])"
    and res: "Value_iterJSON w v True (h1 @ [OnKey k]) = (None, h')"
  shows "Serialize w (fs1 @ [(k, v)]) False = (None, h' @ [OnObjectFinished])"
proof -
  have f1: "iterFields w fs1 [OnObjectStart] = (None, h1)"
    using s1 by (simp add: Serialize_None_fields)
  have "iterFields w (fs1 @ [(k, v)]) [OnObjectStart] = (None, h')"
    using f1 nf res by (auto simp: iterFields_append)
  then show ?thesis unfolding Serialize_flat by simp
qed

text \<open>
  Claim C6. In flat mode a field whose value has kind Ignore or Nil, or is an Array without
  elements, leaves no trace: the calls and the result are those of the document without the
  field. Any other field is written where it stands: when the fields before it have been
  serialized without error, with the calls \<open>h1\<close>, the calls of the document continue with
  \<^verbatim>\<open>OnKey\<close> of its key and the calls of its value, and when the value is serialized without
  error and the field is the last one, the close-object call ends the calls; the empty
  document is the object start and the close. So its
  \<^verbatim>\<open>OnKey\<close> call is the first after the object start when it is the first field, and is
  among the calls of every serialization that succeeds. An Object without fields is
  written by the single call \<^verbatim>\<open>OnNil\<close>, also as the value of a field.
\<close>

theorem flat_filters_empty_fields:
  "(kind v = KindIgnore \<or> kind v = KindNil \<or> (kind v = KindArr \<and> length (arr v) = 0) \<longrightarrow>
      Serialize w (fs1 @ (k, v) # fs2) False = Serialize w (fs1 @ fs2) False) \<and>
   (\<not> (kind v = KindIgnore \<or> kind v = KindNil \<or> (kind v = KindArr \<and> length (arr v) = 0)) \<longrightarrow>
      (\<exists>rest. snd (Serialize w ((k, v) # fs2) False) = OnObjectStart # OnKey k # rest) \<and>
      (\<forall>log. Serialize w (fs1 @ (k, v) # fs2) False = (None, log) \<longrightarrow> OnKey k \<in> set log)) \<and>
   Value_iterJSON w (ObjectValue []) dedot h = call w OnNil h \<and>
   Serialize w [(k, ObjectValue [])] False =
     (w [OnObjectStart, OnKey k] OnNil, [OnObjectStart, OnKey k, OnNil, OnObjectFinished]) \<and>
   (\<not> (kind v = KindIgnore \<or> kind v = KindNil \<or> (kind v = KindArr \<and> length (arr v) = 0)) \<and>
    Serialize w fs1 False = (None, h1 @ [OnObjectFinished]) \<longrightarrow>
      (\<exists>evs rest.
         snd (Value_iterJSON w v True (h1 @ [OnKey k])) = h1 @ OnKey k # evs \<and>
         snd (Serialize w (fs1 @ (k, v) # fs2) False) = h1 @ OnKey k # evs @ rest)) \<and>
   (\<not> (kind v = KindIgnore \<or> kind v = KindNil \<or> (kind v = KindArr \<and> length (arr v) = 0)) \<and>
    Serialize w fs1 False = (None, h1 @ [OnObjectFinished]) \<and>
    Value_iterJSON w v True (h1 @ [OnKey k]) = (None, h') \<longrightarrow>
      Serialize w (fs1 @ [(k, v)]) False = (None, h' @ [OnObjectFinished])) \<and>
   Serialize w [] False = (None, [OnObjectStart, OnObjectFinished])"
proof (intro conjI impI allI)
  assume "kind v = KindIgnore \<or> kind v = KindNil \<or> (kind v = KindArr \<and> length (arr v) = 0)"
  then show "Serialize w (fs1 @ (k, v) # fs2) False = Serialize w (fs1 @ fs2) False"
    by (simp add: Serialize_def iterFields_skip)
next
  assume nf: "\<not> (kind v = KindIgnore \<or> kind v = KindNil \<or> (kind v = KindArr \<and> length (arr v) = 0))"
  obtain evs where "snd (iterFields w ((k, v) # fs2) [OnObjectStart]) = [OnObjectStart] @ OnKey k # evs"
    using iterFields_first_key [OF nf, of w k fs2 "[OnObjectStart]"] by auto
  then show "\<exists>rest. snd (Serialize w ((k, v) # fs2) False) = OnObjectStart # OnKey k # rest"
    unfolding Serialize_flat by simp
next
  fix log
  assume nf: "\<not> (kind v = KindIgnore \<or> kind v = KindNil \<or> (kind v = KindArr \<and> length (arr v) = 0))"
    and s: "Serialize w (fs1 @ (k, v) # fs2) False = (None, log)"
  obtain r h' where f: "iterFields w (fs1 @ (k, v) # fs2) [OnObjectStart] = (r, h')"
    by (cases "iterFields w (fs1 @ (k, v) # fs2) [OnObjectStart]")
  with s have "r = None" "log = h' @ [OnObjectFinished]"
    by (simp_all add: Serialize_def)
  moreover have "OnKey k \<in> set h'"
    using iterFields_key_emitted [of w "fs1 @ (k, v) # fs2" "[OnObjectStart]" h' k v] f nf \<open>r = None\<close>
    by simp
  ultimately show "OnKey k \<in> set log" by simp
next
  show "Value_iterJSON w (ObjectValue []) dedot h = call w OnNil h"
    by (simp add: ObjectValue_def)
next
  show "Serialize w [(k, ObjectValue [])] False =
     (w [OnObjectStart, OnKey k] OnNil, [OnObjectStart, OnKey k, OnNil, OnObjectFinished])"
    by (simp add: Serialize_def ObjectValue_def call_def split: option.splits)
next
  assume "\<not> (kind v = KindIgnore \<or> kind v = KindNil \<or> (kind v = KindArr \<and> length (arr v) = 0)) \<and>
    Serialize w fs1 False = (None, h1 @ [OnObjectFinished])"
  then show "\<exists>evs rest.
         snd (Value_iterJSON w v True (h1 @ [OnKey k])) = h1 @ OnKey k # evs \<and>
         snd (Serialize w (fs1 @ (k, v) # fs2) False) = h1 @ OnKey k # evs @ rest"
    using field_at_position [of v w fs1 h1 k fs2] by blast
next
  assume "\<not> (kind v = KindIgnore \<or> kind v = KindNil \<or> (kind v = KindArr \<and> length (arr v) = 0)) \<and>
    Serialize w fs1 False = (None, h1 @ [OnObjectFinished]) \<and>
    Value_iterJSON w v True (h1 @ [OnKey k]) = (None, h')"
  then show "Serialize w (fs1 @ [(k, v)]) False = (None, h' @ [OnObjectFinished])"
    using field_appended [of v w fs1 h1 k h'] by blast
next
  show "Serialize w [] False = (None, [OnObjectStart, OnObjectFinished])"
    by (simp add: Serialize_def)
qed

theorem flat_filters_empty_fields_witness:
  "Serialize okSink [(''a'', IntValue 1), (''n'', nilValue), (''b'', IntValue 2)] False =
     Serialize okSink [(''a'', IntValue 1), (''b'', IntValue 2)] False \<and>
   Serialize okSink [(''a'', IntValue 1), (''e'', ArrValue []), (''b'', IntValue 2)] False =
     Serialize okSink [(''a'', IntValue 1), (''b'', IntValue 2)] False \<and>
   Serialize okSink [(''a'', IntValue 1), (''i'', ignoreValue), (''b'', IntValue 2)] False =
     Serialize okSink [(''a'', IntValue 1), (''b'', IntValue 2)] False \<and>
   Serialize okSink [(''a'', IntValue 1), (''b'', IntValue 2)] False =
     (None, [OnObjectStart, OnKey ''a'', OnInt64 1, OnKey ''b'', OnInt64 2, OnObjectFinished]) \<and>
   OnKey ''o'' \<in> set (snd (Serialize okSink [(''a'', IntValue 1), (''o'', ObjectValue [])] False)) \<and>
   Serialize okSink [(''a'', IntValue 1), (''o'', ObjectValue [])] False =
     (None, [OnObjectStart, OnKey ''a'', OnInt64 1, OnKey ''o'', OnNil, OnObjectFinished]) \<and>
   Serialize okSink [(''k'', IntValue 1), (''k'', IntValue 2)] False =
     (None, [OnObjectStart, OnKey ''k'', OnInt64 1, OnKey ''k'', OnInt64 2, OnObjectFinished])"
proof -
  have s: "Serialize okSink [(''a'', IntValue 1), (''o'', ObjectValue [])] False =
     (None, [OnObjectStart, OnKey ''a'', OnInt64 1, OnKey ''o'', OnNil, OnObjectFinished])"
    by (simp add: Serialize_def IntValue_def ObjectValue_def okSink_def call_def)
  have b: "Serialize okSink [(''a'', IntValue 1), (''b'', IntValue 2)] False =
     (None, [OnObjectStart, OnKey ''a'', OnInt64 1, OnKey ''b'', OnInt64 2, OnObjectFinished])"
    by (simp add: Serialize_def IntValue_def okSink_def call_def)
  have k: "kind nilValue = KindNil" "kind ignoreValue = KindIgnore"
    "kind (ArrValue []) = KindArr" "arr (ArrValue []) = []"
    "kind (ObjectValue []) = KindObject" "kind (IntValue 2) = KindInt"
    by (simp_all add: nilValue_def ignoreValue_def zeroValue_def ArrValue_def ObjectValue_def
        IntValue_def)
  have k1: "Serialize okSink [(''k'', IntValue 1)] False =
      (None, [OnObjectStart, OnKey ''k'', OnInt64 1] @ [OnObjectFinished])"
    by (simp add: Serialize_def IntValue_def okSink_def call_def)
  have k2: "Value_iterJSON okSink (IntValue 2) True ([OnObjectStart, OnKey ''k'', OnInt64 1] @ [OnKey ''k'']) =
      (None, [OnObjectStart, OnKey ''k'', OnInt64 1, OnKey ''k'', OnInt64 2])"
    by (simp add: IntValue_def okSink_def call_def)
  have dup: "Serialize okSink ([(''k'', IntValue 1)] @ [(''k'', IntValue 2)]) False =
      (None, [OnObjectStart, OnKey ''k'', OnInt64 1, OnKey ''k'', OnInt64 2] @ [OnObjectFinished])"
    using flat_filters_empty_fields [where v = "IntValue 2" and w = okSink
        and ?fs1.0 = "[(''k'', IntValue 1)]" and k = "''k''"
        and ?h1.0 = "[OnObjectStart, OnKey ''k'', OnInt64 1]"
        and h' = "[OnObjectStart, OnKey ''k'', OnInt64 1, OnKey ''k'', OnInt64 2]"] k1 k2
    by (simp only: k Kind.distinct simp_thms)
  show ?thesis
    using flat_filters_empty_fields [where v = nilValue and w = okSink
        and ?fs1.0 = "[(''a'', IntValue 1)]" and k = "''n''" and ?fs2.0 = "[(''b'', IntValue 2)]"]
      flat_filters_empty_fields [where v = "ArrValue []" and w = okSink
        and ?fs1.0 = "[(''a'', IntValue 1)]" and k = "''e''" and ?fs2.0 = "[(''b'', IntValue 2)]"]
      flat_filters_empty_fields [where v = ignoreValue and w = okSink
        and ?fs1.0 = "[(''a'', IntValue 1)]" and k = "''i''" and ?fs2.0 = "[(''b'', IntValue 2)]"]
      flat_filters_empty_fields [where v = "ObjectValue []" and w = okSink
        and ?fs1.0 = "[(''a'', IntValue 1)]" and k = "''o''" and ?fs2.0 = "[]"]
      dup
    by (simp add: k s b)
qed

subsection \<open>Abort at a failing element\<close>






subsection \<open>Timestamps\<close>

lemma Format_tsLayout:
  "Format t tsLayout =
     appendInt (Year t) 4 @ ''-'' @ appendInt (int (Month t)) 2 @ ''-'' @
     appendInt (int (Day t)) 2 @ ''T'' @ appendInt (int (Hour t)) 2 @ '':'' @
     appendInt (int (Minute t)) 2 @ '':'' @ appendInt (int (Second t)) 2 @
     formatNano (Nanosecond t) @ ''Z''"
  by (simp add: tsLayout_def Format.simps HasPrefix_def isDigit_def)

lemma digit_chars:
  "digit 0 = CHR ''0''" "digit 1 = CHR ''1''" "digit 2 = CHR ''2''" "digit 3 = CHR ''3''"
  "digit 4 = CHR ''4''" "digit 5 = CHR ''5''" "digit 6 = CHR ''6''" "digit 7 = CHR ''7''"
  "digit 8 = CHR ''8''" "digit 9 = CHR ''9''" "digit (Suc 0) = CHR ''1''"
  by code_simp+

lemma isDigitChar_digit: "n < 10 \<Longrightarrow> isDigitChar (digit n)"
  by (simp add: isDigitChar_def digit_def less_eq_char_def)

lemma decimal_digits: "list_all isDigitChar (decimal n)"
proof (induction n rule: decimal.induct)
  case (1 u)
  show ?case
  proof (cases "u \<ge> 10")
    case True
    with 1 show ?thesis by (subst decimal.simps) (simp add: isDigitChar_digit)
  next
    case False
    then show ?thesis by (subst decimal.simps) (simp add: isDigitChar_digit)
  qed
qed

lemma decimal_length: "0 < k \<Longrightarrow> n < 10 ^ k \<Longrightarrow> length (decimal n) \<le> k"
proof (induction n arbitrary: k rule: decimal.induct)
  case (1 u)
  show ?case
  proof (cases "u \<ge> 10")
    case True
    then obtain j where k: "k = Suc j" "0 < j"
      using "1.prems" by (cases k; cases "k - 1") auto
    have "u div 10 < 10 ^ j" using "1.prems"(2) k by (simp add: less_mult_imp_div_less mult.commute)
    then have "length (decimal (u div 10)) \<le> j" using "1.IH" True k by simp
    then show ?thesis using True k by (subst decimal.simps) simp
  next
    case False
    then show ?thesis using "1.prems"(1) by (subst decimal.simps) simp
  qed
qed

lemma appendInt_fixed:
  assumes "0 \<le> x" and "x < 10 ^ k" and "0 < k"
  shows "length (appendInt x k) = k \<and> list_all isDigitChar (appendInt x k)"
proof -
  have "nat \<bar>x\<bar> < 10 ^ k" using assms by (simp add: nat_less_iff)
  then have "length (decimal (nat \<bar>x\<bar>)) \<le> k" using assms(3) by (simp add: decimal_length)
  moreover have "isDigitChar (CHR ''0'')" by (simp add: isDigitChar_def)
  ultimately show ?thesis
    using assms(1) decimal_digits [of "nat \<bar>x\<bar>"] by (auto simp: appendInt_def list_all_iff)
qed

lemma formatNano_shape:
  "\<exists>ns. formatNano n = ''.'' @ ns \<and> length ns = 9 \<and> list_all isDigitChar ns"
  by (simp add: formatNano_def list_all_iff isDigitChar_digit)

text \<open>
  Claim C7, as the code has it. A Timestamp whose year in UTC lies in 0..9999 is serialized
  by one \<^verbatim>\<open>OnString\<close> call with a string of 30 characters: four digits, \<open>-\<close>, two digits,
  \<open>-\<close>, two digits, \<open>T\<close>, two digits, \<open>:\<close>, two digits, \<open>:\<close>, two digits, \<open>.\<close>, nine digits
  and \<open>Z\<close>.
\<close>

theorem Timestamp_format:
  assumes "validTime t" and "0 \<le> Year t" and "Year t \<le> 9999"
  shows "Value_iterJSON w (TimestampValue t) dedot h = call w (OnString (Format t tsLayout)) h \<and>
    length (Format t tsLayout) = 30 \<and>
    (\<exists>YYYY MM DD hh mm ss ns.
       Format t tsLayout =
         YYYY @ ''-'' @ MM @ ''-'' @ DD @ ''T'' @ hh @ '':'' @ mm @ '':'' @ ss @ ''.'' @ ns @ ''Z'' \<and>
       length YYYY = 4 \<and> length MM = 2 \<and> length DD = 2 \<and> length hh = 2 \<and> length mm = 2 \<and>
       length ss = 2 \<and> length ns = 9 \<and>
       list_all isDigitChar (YYYY @ MM @ DD @ hh @ mm @ ss @ ns))"
proof -
  have y: "length (appendInt (Year t) 4) = 4 \<and> list_all isDigitChar (appendInt (Year t) 4)"
    using assms(2,3) by (intro appendInt_fixed) simp_all
  have two: "length (appendInt (int n) 2) = 2 \<and> list_all isDigitChar (appendInt (int n) 2)"
    if "n < 100" for n using that by (intro appendInt_fixed) simp_all
  have f: "Month t < 100" "Day t < 100" "Hour t < 100" "Minute t < 100" "Second t < 100"
    using assms(1) by (simp_all add: validTime_def)
  obtain ns where ns: "formatNano (Nanosecond t) = ''.'' @ ns" "length ns = 9" "list_all isDigitChar ns"
    using formatNano_shape by blast
  have shape: "\<exists>YYYY MM DD hh mm ss ns.
       Format t tsLayout =
         YYYY @ ''-'' @ MM @ ''-'' @ DD @ ''T'' @ hh @ '':'' @ mm @ '':'' @ ss @ ''.'' @ ns @ ''Z'' \<and>
       length YYYY = 4 \<and> length MM = 2 \<and> length DD = 2 \<and> length hh = 2 \<and> length mm = 2 \<and>
       length ss = 2 \<and> length ns = 9 \<and>
       list_all isDigitChar (YYYY @ MM @ DD @ hh @ mm @ ss @ ns)"
    apply (rule exI [of _ "appendInt (Year t) 4"])
    apply (rule exI [of _ "appendInt (int (Month t)) 2"])
    apply (rule exI [of _ "appendInt (int (Day t)) 2"])
    apply (rule exI [of _ "appendInt (int (Hour t)) 2"])
    apply (rule exI [of _ "appendInt (int (Minute t)) 2"])
    apply (rule exI [of _ "appendInt (int (Second t)) 2"])
    apply (rule exI [of _ ns])
    using y two [OF f(1)] two [OF f(2)] two [OF f(3)] two [OF f(4)] two [OF f(5)] ns
    apply (simp add: Format_tsLayout)
    done
  then have "length (Format t tsLayout) = 30" by auto
  moreover have "Value_iterJSON w (TimestampValue t) dedot h = call w (OnString (Format t tsLayout)) h"
    by (simp add: TimestampValue_def)
  ultimately show ?thesis using shape by blast
qed

theorem Timestamp_format_witness:
  "Format \<lparr>Year = 2021, Month = 3, Day = 4, Hour = 5, Minute = 6, Second = 7, Nanosecond = 8009\<rparr> tsLayout =
     ''2021-03-04T05:06:07.000008009Z'' \<and>
   length (Format \<lparr>Year = 2021, Month = 3, Day = 4, Hour = 5, Minute = 6, Second = 7,
     Nanosecond = 8009\<rparr> tsLayout) = 30"
proof -
  have v: "validTime \<lparr>Year = 2021, Month = 3, Day = 4, Hour = 5, Minute = 6, Second = 7, Nanosecond = 8009\<rparr>"
    by (simp add: validTime_def)
  have e: "Format \<lparr>Year = 2021, Month = 3, Day = 4, Hour = 5, Minute = 6, Second = 7, Nanosecond = 8009\<rparr> tsLayout =
     ''2021-03-04T05:06:07.000008009Z''"
    by (simp add: Format_tsLayout appendInt_def decimal.simps formatNano_def digit_chars upt_rec)
  show ?thesis
    using Timestamp_format [OF v, of okSink False "[]"] e by simp
qed

text \<open>
  The claim as stated fails for a value built by \<^verbatim>\<open>TimestampValue\<close> from a time in the
  year 10000: the year takes five characters and the string 31.
\<close>

theorem Timestamp_year_10000:
  "Value_iterJSON okSink (TimestampValue (zeroTime\<lparr>Year := 10000\<rparr>)) False [] =
     (None, [OnString ''10000-01-01T00:00:00.000000000Z'']) \<and>
   length (Format (zeroTime\<lparr>Year := 10000\<rparr>) tsLayout) = 31"
proof -
  have e: "Format (zeroTime\<lparr>Year := 10000\<rparr>) tsLayout = ''10000-01-01T00:00:00.000000000Z''"
    by (simp add: Format_tsLayout appendInt_def decimal.simps formatNano_def zeroTime_def
        digit_chars upt_rec)
  show ?thesis
    by (simp add: TimestampValue_def e call_def okSink_def)
qed

subsection \<open>Duplicate keys\<close>

lemma Value_Dedup_ignoreValue [simp]: "Value_Dedup ignoreValue = ignoreValue"
  by (simp add: ignoreValue_def zeroValue_def)

lemma key_renamePairs_nth:
  "i < length fs \<Longrightarrow> val (renamePairs fs ! i) = val (fs ! i)"
proof -
  assume i: "i < length fs"
  have "val (renamePairs fs ! i) = map val (renamePairs fs) ! i" using i by simp
  also have "\<dots> = map val fs ! i" by (simp only: val_renamePairs)
  finally show ?thesis using i by simp
qed

lemma markPairs_nth:
  "i < length fs \<Longrightarrow> markPairs fs ! i =
     (if Suc i < length fs \<and> key (fs ! i) = key (fs ! Suc i) then (key (fs ! i), ignoreValue)
      else fs ! i)"
proof (induction fs arbitrary: i rule: markPairs.induct)
  case (1 f g fs)
  then show ?case by (cases i) auto
qed auto

lemma key_markPairs: "map key (markPairs fs) = map key fs"
  by (induction fs rule: markPairs.induct) auto

lemma Document_Dedup_eq:
  "Document_Dedup fs = map (\<lambda>f. (key f, Value_Dedup (val f))) (markPairs (renamePairs fs))"
  by (simp add: Document_Dedup.simps Dedup_rename_0 Dedup_mark_0)

lemma length_Document_Dedup [simp]: "length (Document_Dedup fs) = length fs"
  by (simp add: Document_Dedup_eq)

lemma key_Document_Dedup: "map key (Document_Dedup fs) = map key (renamePairs fs)"
  by (simp add: Document_Dedup_eq key_markPairs o_def)

lemma key_Document_Dedup_nth:
  "i < length fs \<Longrightarrow> key (Document_Dedup fs ! i) = key (renamePairs fs ! i)"
proof -
  assume i: "i < length fs"
  have "key (Document_Dedup fs ! i) = map key (Document_Dedup fs) ! i" using i by simp
  also have "\<dots> = map key (renamePairs fs) ! i" by (simp only: key_Document_Dedup)
  finally show ?thesis using i by simp
qed

lemma val_Document_Dedup_nth:
  assumes "i < length fs"
  shows "val (Document_Dedup fs ! i) =
     (if Suc i < length fs \<and> key (Document_Dedup fs ! i) = key (Document_Dedup fs ! Suc i)
      then ignoreValue else Value_Dedup (val (fs ! i)))"
proof -
  let ?r = "renamePairs fs"
  have "val (Document_Dedup fs ! i) = Value_Dedup (val (markPairs ?r ! i))"
    using assms by (simp add: Document_Dedup_eq)
  also have "markPairs ?r ! i =
     (if Suc i < length fs \<and> key (?r ! i) = key (?r ! Suc i) then (key (?r ! i), ignoreValue)
      else ?r ! i)"
    using assms markPairs_nth [of i ?r] by simp
  finally show ?thesis
    using assms by (auto simp: key_Document_Dedup_nth key_renamePairs_nth)
qed

lemma Dedup_example_duplicate:
  "Document_Dedup (Document_Sort [(''k'', IntValue 1), (''k'', IntValue 2)]) =
     [(''k'', ignoreValue), (''k'', IntValue 2)]"
  "Serialize okSink [(''k'', ignoreValue), (''k'', IntValue 2)] False =
     (None, [OnObjectStart, OnKey ''k'', OnInt64 2, OnObjectFinished])"
proof -
  show "Document_Dedup (Document_Sort [(''k'', IntValue 1), (''k'', IntValue 2)]) =
     [(''k'', ignoreValue), (''k'', IntValue 2)]"
    by code_simp
  show "Serialize okSink [(''k'', ignoreValue), (''k'', IntValue 2)] False =
     (None, [OnObjectStart, OnKey ''k'', OnInt64 2, OnObjectFinished])"
    by (simp add: Serialize_def ignoreValue_def zeroValue_def IntValue_def okSink_def call_def)
qed

text \<open>
  Claim C5, as the code has it. The keys that the second pass of \<^verbatim>\<open>Dedup\<close> compares are the
  keys after the prefix rename, which are the keys of the result. For positions \<open>i..j\<close> of
  the result that carry one key, with a different key (or nothing) after \<open>j\<close>, every field
  before \<open>j\<close> is Ignore and the field at \<open>j\<close> keeps its value (deduplicated in turn, of
  the same kind). For the fields \<open>k = 1\<close>, \<open>k = 2\<close>, Sort then Dedup marks field 0 and the
  flat serialization emits the key \<open>k\<close> once, with 2.
\<close>

theorem Dedup_marks_duplicates:
  assumes "i \<le> j" and "j < length d"
    and "\<forall>m. i \<le> m \<and> m < j \<longrightarrow> key (Document_Dedup d ! m) = key (Document_Dedup d ! Suc m)"
    and "Suc j < length d \<longrightarrow> key (Document_Dedup d ! j) \<noteq> key (Document_Dedup d ! Suc j)"
  shows "map key (Document_Dedup d) = map key (Dedup_rename 0 d) \<and>
    (\<forall>m. i \<le> m \<and> m < j \<longrightarrow> val (Document_Dedup d ! m) = ignoreValue) \<and>
    val (Document_Dedup d ! j) = Value_Dedup (val (d ! j)) \<and>
    kind (val (Document_Dedup d ! j)) = kind (val (d ! j)) \<and>
    val (Document_Dedup (Document_Sort [(''k'', IntValue 1), (''k'', IntValue 2)]) ! 0) =
      ignoreValue \<and>
    Serialize okSink
      (Document_Dedup (Document_Sort [(''k'', IntValue 1), (''k'', IntValue 2)])) False =
      (None, [OnObjectStart, OnKey ''k'', OnInt64 2, OnObjectFinished])"
proof (intro conjI allI impI)
  show "map key (Document_Dedup d) = map key (Dedup_rename 0 d)"
    by (simp add: key_Document_Dedup Dedup_rename_0)
next
  fix m assume m: "i \<le> m \<and> m < j"
  then have "m < length d" "Suc m < length d" using assms(2) by auto
  then show "val (Document_Dedup d ! m) = ignoreValue"
    using assms(3) m by (simp add: val_Document_Dedup_nth)
next
  show v: "val (Document_Dedup d ! j) = Value_Dedup (val (d ! j))"
    using assms(2,4) by (auto simp: val_Document_Dedup_nth)
  show "kind (val (Document_Dedup d ! j)) = kind (val (d ! j))"
    unfolding v by (cases "val (d ! j)") simp
next
  show "val (Document_Dedup (Document_Sort [(''k'', IntValue 1), (''k'', IntValue 2)]) ! 0) =
      ignoreValue"
    unfolding Dedup_example_duplicate(1) by simp
  show "Serialize okSink
      (Document_Dedup (Document_Sort [(''k'', IntValue 1), (''k'', IntValue 2)])) False =
      (None, [OnObjectStart, OnKey ''k'', OnInt64 2, OnObjectFinished])"
    unfolding Dedup_example_duplicate(1) by (rule Dedup_example_duplicate(2))
qed

theorem Dedup_marks_duplicates_witness:
  "val (Document_Dedup [(''k'', IntValue 1), (''k'', IntValue 2), (''k'', IntValue 3),
      (''l'', IntValue 4)] ! 0) = ignoreValue \<and>
   val (Document_Dedup [(''k'', IntValue 1), (''k'', IntValue 2), (''k'', IntValue 3),
      (''l'', IntValue 4)] ! 1) = ignoreValue \<and>
   val (Document_Dedup [(''k'', IntValue 1), (''k'', IntValue 2), (''k'', IntValue 3),
      (''l'', IntValue 4)] ! 2) = IntValue 3"
proof -
  have d: "Document_Dedup [(''k'', IntValue 1), (''k'', IntValue 2), (''k'', IntValue 3),
      (''l'', IntValue 4)] =
      [(''k'', ignoreValue), (''k'', ignoreValue), (''k'', IntValue 3), (''l'', IntValue 4)]"
    by code_simp
  have m: "(\<forall>m::nat. 0 \<le> m \<and> m < 2 \<longrightarrow> P m) \<longleftrightarrow> P 0 \<and> P 1" for P
    by (auto simp: less_Suc_eq numeral_2_eq_2)
  show ?thesis
    using Dedup_marks_duplicates [of 0 2 "[(''k'', IntValue 1), (''k'', IntValue 2),
      (''k'', IntValue 3), (''l'', IntValue 4)]"]
    unfolding d by (simp add: m IntValue_def)
qed

text \<open>
  The claim as stated, for runs of identical keys of the sorted document, fails: the second
  \<open>a\<close> is renamed to \<open>a.value\<close> because \<open>a.b\<close> follows it, so the two \<open>a\<close> no longer
  carry one key and the first is not marked.
\<close>

theorem Dedup_keeps_duplicate_before_child:
  "Document_Sort [(''a'', IntValue 1), (''a'', IntValue 2), (''a.b'', IntValue 3)] =
     [(''a'', IntValue 1), (''a'', IntValue 2), (''a.b'', IntValue 3)] \<and>
   Document_Dedup (Document_Sort [(''a'', IntValue 1), (''a'', IntValue 2), (''a.b'', IntValue 3)]) =
     [(''a'', IntValue 1), (''a.value'', IntValue 2), (''a.b'', IntValue 3)] \<and>
   kind (val (Document_Dedup
     (Document_Sort [(''a'', IntValue 1), (''a'', IntValue 2), (''a.b'', IntValue 3)]) ! 0)) = KindInt"
proof -
  have s: "Document_Sort [(''a'', IntValue 1), (''a'', IntValue 2), (''a.b'', IntValue 3)] =
     [(''a'', IntValue 1), (''a'', IntValue 2), (''a.b'', IntValue 3)]"
    by code_simp
  have d: "Document_Dedup [(''a'', IntValue 1), (''a'', IntValue 2), (''a.b'', IntValue 3)] =
     [(''a'', IntValue 1), (''a.value'', IntValue 2), (''a.b'', IntValue 3)]"
    by code_simp
  show ?thesis unfolding s d by (simp add: IntValue_def)
qed

subsection \<open>Dedup applied twice\<close>

lemma renamePairs_id: "noPrefixPair (map key fs) \<Longrightarrow> renamePairs fs = fs"
  by (induction fs rule: renamePairs.induct) (auto split: if_splits)

lemma markPairs_map:
  assumes "g ignoreValue = ignoreValue"
  shows "markPairs (map (\<lambda>f. (key f, g (val f))) fs) = map (\<lambda>f. (key f, g (val f))) (markPairs fs)"
  using assms by (induction fs rule: markPairs.induct) auto

lemma markPairs_idem: "markPairs (markPairs fs) = markPairs fs"
proof (induction fs rule: markPairs.induct)
  case (1 f g fs)
  then show ?case by (cases fs) auto
qed auto

lemma Dedup_idem:
  "stableDoc (Document_Dedup fs) \<Longrightarrow> Document_Dedup (Document_Dedup fs) = Document_Dedup fs"
  "stableVal (Value_Dedup v) \<Longrightarrow> Value_Dedup (Value_Dedup v) = Value_Dedup v"
proof (induction fs and v rule: Document_Dedup_Value_Dedup.induct)
  case (1 fs)
  let ?F = "\<lambda>f :: field. (key f, Value_Dedup (val f))"
  let ?m = "markPairs (renamePairs fs)"
  have D: "Document_Dedup fs = map ?F ?m" by (rule Document_Dedup_eq)
  have np: "noPrefixPair (map key (Document_Dedup fs))" using "1.prems" by simp
  have st: "\<forall>f \<in> set ?m. stableVal (Value_Dedup (val f))"
    using "1.prems" unfolding D by (simp add: list_all_iff)
  have fixF: "\<forall>f \<in> set ?m. ?F (?F f) = ?F f"
  proof
    fix f assume f: "f \<in> set ?m"
    then have "f \<in> set (Dedup_mark 0 (Dedup_rename 0 fs))"
      by (simp add: Dedup_rename_0 Dedup_mark_0)
    then have "Value_Dedup (Value_Dedup (val f)) = Value_Dedup (val f)"
      using "1.IH" st f by blast
    then show "?F (?F f) = ?F f" by simp
  qed
  have "Document_Dedup (Document_Dedup fs) =
      map ?F (markPairs (renamePairs (Document_Dedup fs)))"
    by (rule Document_Dedup_eq)
  also have "renamePairs (Document_Dedup fs) = Document_Dedup fs"
    using np by (rule renamePairs_id)
  also have "markPairs (Document_Dedup fs) = map ?F (markPairs ?m)"
    unfolding D by (rule markPairs_map) simp
  also have "markPairs ?m = ?m" by (rule markPairs_idem)
  also have "map ?F (map ?F ?m) = map ?F ?m"
    using fixF by (simp add: o_def)
  finally show ?case by (simp add: D)
next
  case (2 k p d s a dc t)
  show ?case
  proof (cases "k = KindObject")
    case True
    with 2 show ?thesis by simp
  next
    case False
    show ?thesis
    proof (cases "k = KindArr")
      case True
      have "\<forall>x \<in> set a. Value_Dedup (Value_Dedup x) = Value_Dedup x"
        using "2.IH"(2) [OF False True] "2.prems" False True by (simp add: list_all_iff)
      with False True show ?thesis by simp
    next
      case False
      with \<open>k \<noteq> KindObject\<close> show ?thesis by simp
    qed
  qed
qed

lemma less_append_right: "u \<noteq> [] \<Longrightarrow> (b :: string) < b @ u"
  by (induction b) (auto simp: neq_Nil_conv)

lemma HasPrefix_append: "HasPrefix b a \<longleftrightarrow> (\<exists>s. b = a @ s)"
  unfolding HasPrefix_def
  by (metis append_eq_conv_conj append_take_drop_id length_append le_add1)

lemma pair_not_renamed_then_renamed:
  assumes "(a :: string) \<le> b" and "a \<noteq> b"
    and "\<not> (length a < length b \<and> HasPrefix b a)"
  shows "\<not> (length a < length (b @ s) \<and> HasPrefix (b @ s) a)"
proof
  assume h: "length a < length (b @ s) \<and> HasPrefix (b @ s) a"
  then obtain t where t: "b @ s = a @ t" by (auto simp: HasPrefix_append)
  show False
  proof (cases "length a \<le> length b")
    case True
    then have "take (length a) b = a" using t
      by (metis append_eq_append_conv_if append_eq_conv_conj)
    then have "HasPrefix b a" using True by (simp add: HasPrefix_def)
    then have "length a = length b" using assms(3) True by auto
    then show False using \<open>take (length a) b = a\<close> assms(2) by auto
  next
    case False
    then obtain u where "a = b @ u" "u \<noteq> []" using t
      by (metis append_eq_append_conv_if append_take_drop_id drop_eq_Nil not_le_imp_less order_less_imp_le)
    then have "b < a" using less_append_right by auto
    then show False using assms(1) by auto
  qed
qed

lemma value_suffix:
  assumes "s @ ''.value'' = ''.value'' @ t" and "s \<noteq> []"
  shows "HasPrefix s ''.value''"
proof (cases "length s \<ge> 6")
  case True
  have "take (length ''.value'') (s @ ''.value'') = ''.value''"
    unfolding assms(1) by (rule append_eq_conv_conj [THEN iffD1, THEN conjunct1, symmetric]) (rule refl)
  moreover have "take (length ''.value'') (s @ ''.value'') = take (length ''.value'') s"
    using True by simp
  ultimately show ?thesis using True unfolding HasPrefix_def by simp
next
  case False
  then have "length s < 6" by simp
  then consider "length s = 1" | "length s = 2" | "length s = 3" | "length s = 4" | "length s = 5"
    using assms(2) by (cases s) (auto simp: less_Suc_eq numeral_eq_Suc)
  then show ?thesis
  proof cases
    case 1 then obtain a where "s = [a]" by (auto simp: length_Suc_conv)
    then show ?thesis using assms(1) by simp
  next
    case 2 then obtain a b where "s = [a, b]" by (auto simp: length_Suc_conv numeral_eq_Suc)
    then show ?thesis using assms(1) by simp
  next
    case 3 then obtain a b c where "s = [a, b, c]" by (auto simp: length_Suc_conv numeral_eq_Suc)
    then show ?thesis using assms(1) by simp
  next
    case 4 then obtain a b c d where "s = [a, b, c, d]" by (auto simp: length_Suc_conv numeral_eq_Suc)
    then show ?thesis using assms(1) by simp
  next
    case 5 then obtain a b c d e where "s = [a, b, c, d, e]" by (auto simp: length_Suc_conv numeral_eq_Suc)
    then show ?thesis using assms(1) by simp
  qed
qed

lemma pair_both_renamed:
  assumes "length a < length b \<and> HasPrefix b a"
    and "length (a @ ''.value'') < length (b @ ''.value'') \<and> HasPrefix (b @ ''.value'') (a @ ''.value'')"
  shows "HasPrefix b (a @ ''.value'')"
proof -
  obtain s where s: "b = a @ s" using assms(1) by (auto simp: HasPrefix_append)
  then have ne: "s \<noteq> []" using assms(1) by auto
  obtain t where "b @ ''.value'' = (a @ ''.value'') @ t" using assms(2) by (auto simp: HasPrefix_append)
  then have "s @ ''.value'' = ''.value'' @ t" using s by simp
  then have "HasPrefix s ''.value''" using ne by (rule value_suffix)
  then obtain r where "s = ''.value'' @ r" by (auto simp: HasPrefix_append)
  then show ?thesis using s by (auto simp: HasPrefix_append)
qed

lemma pair_next_renamed:
  assumes "(a :: string) \<le> b" and "\<not> HasPrefix b (a @ ''.value'')" and "a \<noteq> b"
  shows "\<not> (length (if length a < length b \<and> HasPrefix b a then a @ ''.value'' else a)
        < length (b @ ''.value'') \<and>
     HasPrefix (b @ ''.value'') (if length a < length b \<and> HasPrefix b a then a @ ''.value'' else a))"
proof (cases "length a < length b \<and> HasPrefix b a")
  case True
  show ?thesis
  proof
    assume "length (if length a < length b \<and> HasPrefix b a then a @ ''.value'' else a)
        < length (b @ ''.value'') \<and>
     HasPrefix (b @ ''.value'') (if length a < length b \<and> HasPrefix b a then a @ ''.value'' else a)"
    then have "length (a @ ''.value'') < length (b @ ''.value'') \<and>
        HasPrefix (b @ ''.value'') (a @ ''.value'')"
      using True by simp
    then have "HasPrefix b (a @ ''.value'')" using True pair_both_renamed by blast
    then show False using assms(2) by simp
  qed
next
  case False
  then show ?thesis
    using pair_not_renamed_then_renamed [OF assms(1) assms(3), of "''.value''"] by auto
qed

lemma rename_noPrefixPair:
  "sorted (map key fs) \<Longrightarrow> noValueChild (map key fs) \<Longrightarrow> noDupParent (map key fs) \<Longrightarrow>
     noPrefixPair (map key (renamePairs fs))"
proof (induction fs rule: renamePairs.induct)
  case (1 f g fs)
  have le: "key f \<le> key g" and so: "sorted (map key (g # fs))" using "1.prems"(1) by auto
  have nv: "\<not> HasPrefix (key g) (key f @ ''.value'')" and nvr: "noValueChild (map key (g # fs))"
    using "1.prems"(2) by (auto split: if_splits)
  show ?case
  proof (cases fs)
    case Nil
    then show ?thesis using nv by auto
  next
    case (Cons h fs')
    have nd: "\<not> (key f = key g \<and> length (key g) < length (key h) \<and> HasPrefix (key h) (key g))"
      and ndr: "noDupParent (map key (g # fs))"
      using "1.prems"(3) Cons by (auto split: if_splits)
    have IH: "noPrefixPair (map key (renamePairs (g # fs)))"
      using "1.IH" so nvr ndr by simp
    show ?thesis
    proof (cases "length (key g) < length (key h) \<and> HasPrefix (key h) (key g)")
      case True
      then have "key f \<noteq> key g" using nd by auto
      then show ?thesis
        using pair_next_renamed [OF le nv] nv IH True Cons by auto
    next
      case False
      then show ?thesis
        using nv IH False Cons by auto
    qed
  qed
qed auto

lemma stable_after_Dedup:
  "sortedDoc fs \<Longrightarrow> collisionFree fs \<Longrightarrow> stableDoc (Document_Dedup fs)"
  "sortedVal v \<Longrightarrow> collisionFreeVal v \<Longrightarrow> stableVal (Value_Dedup v)"
proof (induction fs and v rule: Document_Dedup_Value_Dedup.induct)
  case (1 fs)
  have keys: "noPrefixPair (map key (Document_Dedup fs))"
    unfolding key_Document_Dedup using "1.prems" by (intro rename_noPrefixPair) simp_all
  have "stableVal (Value_Dedup (val f))" if f: "f \<in> set (markPairs (renamePairs fs))" for f
  proof -
    have m: "f \<in> set (Dedup_mark 0 (Dedup_rename 0 fs))"
      using f by (simp add: Dedup_rename_0 Dedup_mark_0)
    from val_passes [OF m] show ?thesis
    proof
      assume "val f \<in> val ` set fs"
      then have "sortedVal (val f)" "collisionFreeVal (val f)"
        using "1.prems" by (auto simp: list_all_iff)
      then show ?thesis using "1.IH" [OF m] by simp
    next
      assume "val f = ignoreValue"
      then show ?thesis by (simp add: ignoreValue_def zeroValue_def)
    qed
  qed
  then have "list_all (\<lambda>f. stableVal (val f)) (Document_Dedup fs)"
    unfolding Document_Dedup_eq by (simp add: list_all_iff)
  with keys show ?case by simp
next
  case (2 k p d s a dc t)
  show ?case
  proof (cases "k = KindObject")
    case True
    with 2 show ?thesis by simp
  next
    case False
    show ?thesis
    proof (cases "k = KindArr")
      case True
      then have "\<forall>x \<in> set a. stableVal (Value_Dedup x)"
        using "2.IH"(2) [OF False True] "2.prems" by (simp add: list_all_iff)
      with False True show ?thesis by (simp add: list_all_iff)
    next
      case False
      with \<open>k \<noteq> KindObject\<close> show ?thesis by simp
    qed
  qed
qed

lemma Sort_sortedDoc:
  "sortedDoc (Document_Sort fs)"
  "sortedVal (Value_Sort v)"
proof (induction fs and v rule: Document_Sort_Value_Sort.induct)
  case (1 fs)
  have "map key (Document_Sort fs) = map key (sort_key key fs)"
    by (simp add: Document_Sort.simps o_def)
  then have "sorted (map key (Document_Sort fs))" by simp
  moreover have "list_all (\<lambda>f. sortedVal (val f)) (Document_Sort fs)"
    using "1.IH" by (simp add: Document_Sort.simps list_all_iff)
  ultimately show ?case by simp
next
  case (2 k p d s a dc t)
  then show ?case by (simp add: list_all_iff)
qed

text \<open>
  Claim C3, as the code has it. Let the keys of a document be in ascending order, let no
  key be followed by a key that starts with it and \<open>.value\<close>, and let no key that is
  repeated by the key after it be a shorter prefix of the key after that, all this at
  every level of nesting. Then a second \<^verbatim>\<open>Dedup\<close> changes neither a key nor a value of
  the result of the first, and its first pass renames nothing. \<^verbatim>\<open>Sort\<close> puts the keys in
  ascending order at every level.
\<close>

theorem Dedup_twice:
  assumes "sortedDoc d" and "collisionFree d"
  shows "Document_Dedup (Document_Dedup d) = Document_Dedup d \<and>
    Dedup_rename 0 (Document_Dedup d) = Document_Dedup d \<and>
    sortedDoc (Document_Sort d0)"
proof (intro conjI)
  have st: "stableDoc (Document_Dedup d)" using assms by (rule stable_after_Dedup(1))
  then show "Document_Dedup (Document_Dedup d) = Document_Dedup d" by (rule Dedup_idem(1))
  have "noPrefixPair (map key (Document_Dedup d))" using st by simp
  then show "Dedup_rename 0 (Document_Dedup d) = Document_Dedup d"
    unfolding Dedup_rename_0 by (rule renamePairs_id)
  show "sortedDoc (Document_Sort d0)" by (rule Sort_sortedDoc(1))
qed

theorem Dedup_twice_witness:
  "Document_Dedup (Document_Dedup (Document_Sort
      [(''k'', IntValue 2), (''a.b'', StringValue ''x''), (''a'', IntValue 1), (''k'', IntValue 3)])) =
     [(''a.value'', IntValue 1), (''a.b'', StringValue ''x''), (''k'', ignoreValue), (''k'', IntValue 3)]"
proof -
  have s: "Document_Sort
      [(''k'', IntValue 2), (''a.b'', StringValue ''x''), (''a'', IntValue 1), (''k'', IntValue 3)] =
      [(''a'', IntValue 1), (''a.b'', StringValue ''x''), (''k'', IntValue 2), (''k'', IntValue 3)]"
    by code_simp
  have d: "Document_Dedup
      [(''a'', IntValue 1), (''a.b'', StringValue ''x''), (''k'', IntValue 2), (''k'', IntValue 3)] =
      [(''a.value'', IntValue 1), (''a.b'', StringValue ''x''), (''k'', ignoreValue), (''k'', IntValue 3)]"
    by code_simp
  have c: "collisionFree
      [(''a'', IntValue 1), (''a.b'', StringValue ''x''), (''k'', IntValue 2), (''k'', IntValue 3)]"
    by (simp add: IntValue_def StringValue_def HasPrefix_def)
  have so: "sortedDoc
      [(''a'', IntValue 1), (''a.b'', StringValue ''x''), (''k'', IntValue 2), (''k'', IntValue 3)]"
    by (simp add: IntValue_def StringValue_def)
  show ?thesis
    using Dedup_twice [OF so c] unfolding s d by simp
qed

text \<open>
  The claim as stated fails: after the first \<^verbatim>\<open>Dedup\<close> the renamed key \<open>a.value\<close> is a
  path prefix of the key \<open>a.value.x\<close> after it, and the second \<^verbatim>\<open>Dedup\<close> renames it again.
\<close>

theorem Dedup_twice_renames_again:
  "Document_Sort [(''a'', IntValue 1), (''a.value.x'', IntValue 2)] =
     [(''a'', IntValue 1), (''a.value.x'', IntValue 2)] \<and>
   Document_Dedup (Document_Sort [(''a'', IntValue 1), (''a.value.x'', IntValue 2)]) =
     [(''a.value'', IntValue 1), (''a.value.x'', IntValue 2)] \<and>
   Document_Dedup (Document_Dedup (Document_Sort [(''a'', IntValue 1), (''a.value.x'', IntValue 2)])) =
     [(''a.value.value'', IntValue 1), (''a.value.x'', IntValue 2)]"
  by code_simp

end
